theory Spec2Isabelle
  imports Main
begin

section \<open>Window registry of the desktop shell (arduinOS.ino)\<close>

text \<open>
  The desktop shell keeps its windows in a fixed pool \<open>deskWins[MAX_DESK_WINDOWS]\<close>, a z-order
  array \<open>deskWinOrder[MAX_DESK_WINDOWS]\<close> whose first \<open>deskWinCount\<close> entries are meaningful,
  and the focused slot \<open>activeWin\<close> (\<open>-1\<close> when nothing is focused).

  Slot ids and \<open>activeWin\<close> are \<open>int8_t\<close> in the source and are modelled as \<open>int\<close>; coordinates
  are \<open>int16_t\<close> and are modelled as \<open>int\<close> as well (every value that occurs stays far inside the
  16-bit range).  \<open>deskWinCount\<close> only ever counts up from zero and is modelled as \<open>nat\<close>.
  An array access outside the declared bounds is undefined behaviour in the source; the
  model makes it the value \<open>None\<close>.
\<close>

definition MAX_DESK_WINDOWS :: nat where
  "MAX_DESK_WINDOWS = 15"

definition SCREEN_WIDTH :: int where
  "SCREEN_WIDTH = 240"

definition SCREEN_HEIGHT :: int where
  "SCREEN_HEIGHT = 135"

record DeskWindow =
  win_open :: bool
  win_x :: int
  win_y :: int
  win_w :: int
  win_h :: int
  win_minW :: int
  win_minH :: int
  win_appType :: nat
  win_maximized :: bool
  win_fullscreen :: bool
  win_title :: string

record desk_state =
  deskWins :: "DeskWindow list"
  deskWinOrder :: "int list"
  deskWinCount :: nat
  activeWin :: int
  paintInits :: nat
  viewingBMP :: bool
  bmpViewWidth :: int
  bmpViewHeight :: int
  imgViewerOverlayVisible :: bool

text \<open>The globals at program start, with their initialisers (\<open>activeWin = -1\<close>,
  \<open>imgViewerOverlayVisible = true\<close>, zero otherwise).\<close>

definition emptyWindow :: DeskWindow where
  "emptyWindow = \<lparr> win_open = False, win_x = 0, win_y = 0, win_w = 0, win_h = 0,
     win_minW = 0, win_minH = 0, win_appType = 0, win_maximized = False,
     win_fullscreen = False, win_title = [] \<rparr>"

definition initDesk :: desk_state where
  "initDesk = \<lparr> deskWins = replicate MAX_DESK_WINDOWS emptyWindow,
     deskWinOrder = replicate MAX_DESK_WINDOWS 0,
     deskWinCount = 0, activeWin = - 1, paintInits = 0, viewingBMP = False,
     bmpViewWidth = 0, bmpViewHeight = 0, imgViewerOverlayVisible = True \<rparr>"

subsection \<open>deskOpenWindow\<close>

text \<open>The slot search \<open>for (i = 0; i < MAX_DESK_WINDOWS; i++) if (!deskWins[i].open) { slot = i; break; }\<close>,
  started at index \<open>i\<close>; the result is \<open>-1\<close> when no slot is free.\<close>

function findFreeSlot :: "nat \<Rightarrow> DeskWindow list \<Rightarrow> int" where
  "findFreeSlot i ws =
     (if i < MAX_DESK_WINDOWS
      then (if \<not> win_open (ws ! i) then int i else findFreeSlot (Suc i) ws)
      else - 1)"
  by pat_completeness auto
termination
  by (relation "measure (\<lambda>(i, ws). MAX_DESK_WINDOWS - i)") auto

declare findFreeSlot.simps [simp del]

text \<open>The \<open>switch (appType)\<close> table: default width, height, minimum width, minimum height and
  whether the window starts in true fullscreen.\<close>

fun appDefaults :: "nat \<Rightarrow> int \<times> int \<times> int \<times> int \<times> bool" where
  "appDefaults n =
     (if n = 0 then (85, 70, 70, 60, False)
      else if n = 1 then (95, 85, 95, 85, False)
      else if n = 2 then (90, 65, 80, 55, False)
      else if n = 3 then (85, 60, 70, 50, False)
      else if n = 4 then (130, 100, 120, 90, False)
      else if n = 5 then (85, 55, 70, 45, False)
      else if n = 6 then (180, 100, 140, 80, False)
      else if n = 7 then (130, 100, 120, 90, False)
      else if n = 8 then (130, 100, 120, 90, False)
      else if n = 9 then (100, 120, 100, 120, False)
      else if n = 10 then (120, 100, 100, 80, False)
      else if n = 11 then (100, 120, 100, 120, False)
      else if n = 12 then (160, 110, 120, 80, True)
      else (80, 50, 50, 30, False))"

declare appDefaults.simps [simp del]

text \<open>The record written into the claimed slot (\<open>strncpy(w.title, title, 11)\<close> keeps at most
  eleven characters).\<close>

definition newWindow :: "nat \<Rightarrow> nat \<Rightarrow> string \<Rightarrow> DeskWindow" where
  "newWindow slot appType title =
     (case appDefaults appType of (dw, dh, mw, mh, fs) \<Rightarrow>
        \<lparr> win_open = True,
          win_x = 20 + (int slot * 15) mod 60,
          win_y = 10 + (int slot * 12) mod 40,
          win_w = dw, win_h = dh, win_minW = mw, win_minH = mh,
          win_appType = appType, win_maximized = False, win_fullscreen = fs,
          win_title = take 11 title \<rparr>)"

text \<open>The loop \<open>for (i = n; i > 0; i--) a[i] = a[i - 1];\<close> used to make room at the front.\<close>

fun shiftBack :: "nat \<Rightarrow> int list \<Rightarrow> int list option" where
  "shiftBack 0 a = Some a"
| "shiftBack (Suc i) a =
     (if Suc i < length a then shiftBack i (a[Suc i := a ! i]) else None)"

definition deskOpenWindow :: "nat \<Rightarrow> string \<Rightarrow> desk_state \<Rightarrow> desk_state option" where
  "deskOpenWindow appType title s =
     (let slot = findFreeSlot 0 (deskWins s) in
      if slot < 0 then Some s
      else
        (let ws = (deskWins s)[nat slot := newWindow (nat slot) appType title] in
         case shiftBack (deskWinCount s) (deskWinOrder s) of
           None \<Rightarrow> None
         | Some a \<Rightarrow>
             Some (s\<lparr> deskWins := ws, deskWinOrder := a[0 := slot],
                      deskWinCount := Suc (deskWinCount s), activeWin := slot \<rparr>)))"

subsection \<open>deskCloseWindow\<close>

text \<open>The search \<open>for (i = 0; i < deskWinCount; i++) if (deskWinOrder[i] == winIdx) { orderPos = i; break; }\<close>
  started at index \<open>i\<close>; \<open>Some (-1)\<close> means the id is not in the z-order.\<close>

function findOrderPos :: "nat \<Rightarrow> nat \<Rightarrow> int list \<Rightarrow> int \<Rightarrow> int option" where
  "findOrderPos i n a v =
     (if i < n
      then (if i < length a
            then (if a ! i = v then Some (int i) else findOrderPos (Suc i) n a v)
            else None)
      else Some (- 1))"
  by pat_completeness auto
termination
  by (relation "measure (\<lambda>(i, n, a, v). n - i)") auto

declare findOrderPos.simps [simp del]

text \<open>The loop \<open>for (i = pos; i < deskWinCount - 1; i++) a[i] = a[i + 1];\<close> closing the gap.\<close>

function shiftFront :: "nat \<Rightarrow> nat \<Rightarrow> int list \<Rightarrow> int list option" where
  "shiftFront i n a =
     (if int i < int n - 1
      then (if Suc i < length a then shiftFront (Suc i) n (a[i := a ! Suc i]) else None)
      else Some a)"
  by pat_completeness auto
termination
  by (relation "measure (\<lambda>(i, n, a). n - i)") auto

declare shiftFront.simps [simp del]

definition closeSideEffects :: "DeskWindow \<Rightarrow> desk_state \<Rightarrow> desk_state" where
  "closeSideEffects w s =
     (let s1 = (if win_appType w = 10 then s\<lparr> paintInits := Suc (paintInits s) \<rparr> else s) in
      if win_appType w = 12
      then s1\<lparr> viewingBMP := False, bmpViewWidth := 0, bmpViewHeight := 0,
                imgViewerOverlayVisible := False \<rparr>
      else s1)"

definition refocus :: "desk_state \<Rightarrow> desk_state" where
  "refocus s = s\<lparr> activeWin := (if 0 < deskWinCount s then deskWinOrder s ! 0 else - 1) \<rparr>"

definition deskCloseWindow :: "int \<Rightarrow> desk_state \<Rightarrow> desk_state option" where
  "deskCloseWindow winIdx s =
     (if winIdx < 0 then Some s
      else if \<not> nat winIdx < length (deskWins s) then None
      else if \<not> win_open (deskWins s ! nat winIdx) then Some s
      else
        (let s1 = closeSideEffects (deskWins s ! nat winIdx) s;
             s2 = s1\<lparr> deskWins :=
                    (deskWins s1)[nat winIdx := (deskWins s1 ! nat winIdx)\<lparr> win_open := False \<rparr>] \<rparr>
         in case findOrderPos 0 (deskWinCount s2) (deskWinOrder s2) winIdx of
              None \<Rightarrow> None
            | Some orderPos \<Rightarrow>
                (if orderPos \<ge> 0
                 then (case shiftFront (nat orderPos) (deskWinCount s2) (deskWinOrder s2) of
                         None \<Rightarrow> None
                       | Some a \<Rightarrow>
                           Some (refocus (s2\<lparr> deskWinOrder := a,
                                              deskWinCount := deskWinCount s2 - 1 \<rparr>)))
                 else Some (refocus s2))))"

subsection \<open>deskBringToFront\<close>

definition deskBringToFront :: "int \<Rightarrow> desk_state \<Rightarrow> desk_state option" where
  "deskBringToFront orderIdx s =
     (if orderIdx \<le> 0 then Some s
      else if \<not> nat orderIdx < length (deskWinOrder s) then None
      else
        (let winIdx = deskWinOrder s ! nat orderIdx in
         case shiftBack (nat orderIdx) (deskWinOrder s) of
           None \<Rightarrow> None
         | Some a \<Rightarrow> Some (s\<lparr> deskWinOrder := a[0 := winIdx], activeWin := winIdx \<rparr>)))"

text \<open>The z-order as a list: the first \<open>deskWinCount\<close> entries of \<open>deskWinOrder\<close>.\<close>

definition zorder :: "desk_state \<Rightarrow> int list" where
  "zorder s = take (deskWinCount s) (deskWinOrder s)"

definition openSlots :: "desk_state \<Rightarrow> int set" where
  "openSlots s = {int i | i. i < length (deskWins s) \<and> win_open (deskWins s ! i)}"

subsection \<open>Invariant of the registry and runs of calls\<close>

text \<open>The arrays have their declared size, the z-order lists every open slot exactly once,
  and a non-empty z-order has the focused window in front.\<close>

definition deskInv :: "desk_state \<Rightarrow> bool" where
  "deskInv s \<longleftrightarrow>
     length (deskWins s) = MAX_DESK_WINDOWS \<and> length (deskWinOrder s) = MAX_DESK_WINDOWS
     \<and> deskWinCount s \<le> MAX_DESK_WINDOWS
     \<and> distinct (zorder s) \<and> set (zorder s) = openSlots s
     \<and> (0 < deskWinCount s \<longrightarrow> deskWinOrder s ! 0 = activeWin s)"

datatype desk_call = OpenCall nat string | CloseCall int

fun applyCall :: "desk_call \<Rightarrow> desk_state \<Rightarrow> desk_state option" where
  "applyCall (OpenCall appType title) s = deskOpenWindow appType title s"
| "applyCall (CloseCall winIdx) s = deskCloseWindow winIdx s"

fun runCalls :: "desk_call list \<Rightarrow> desk_state \<Rightarrow> desk_state option" where
  "runCalls [] s = Some s"
| "runCalls (c # cs) s = (case applyCall c s of None \<Rightarrow> None | Some s' \<Rightarrow> runCalls cs s')"

text \<open>A close call names a slot of the pool or a negative index (the pool has no slot 15).\<close>

fun callInPool :: "desk_call \<Rightarrow> bool" where
  "callInPool (OpenCall appType title) = True"
| "callInPool (CloseCall winIdx) = (winIdx < int MAX_DESK_WINDOWS)"

text \<open>Open a calculator, open notes, close the calculator.\<close>

definition scenarioA :: "desk_call list" where
  "scenarioA = [OpenCall 1 ''Calc'', OpenCall 4 ''Notes'', CloseCall 0]"

subsection \<open>The close button of a window\<close>

text \<open>The click handler of the desktop (\<open>drawDesktopApp\<close>), on a click that hits the window at
  z-order position \<open>hitOrder\<close> and its close button:
  \<open>winIdx = deskWinOrder[hitOrder]; deskBringToFront(hitOrder); activeWin = winIdx;
  deskCloseWindow(winIdx); activeWin = -1;\<close>\<close>

definition clickCloseButton :: "int \<Rightarrow> desk_state \<Rightarrow> desk_state option" where
  "clickCloseButton hitOrder s =
     (if hitOrder < 0 then Some s
      else if \<not> nat hitOrder < length (deskWinOrder s) then None
      else
        (let winIdx = deskWinOrder s ! nat hitOrder in
         case deskBringToFront hitOrder s of
           None \<Rightarrow> None
         | Some s1 \<Rightarrow>
             (case deskCloseWindow winIdx (s1\<lparr> activeWin := winIdx \<rparr>) of
                None \<Rightarrow> None
              | Some s2 \<Rightarrow> Some (s2\<lparr> activeWin := - 1 \<rparr>))))"

text \<open>Some desktops used as concrete inputs: all fifteen slots taken; a calculator and notes
  open, notes in front; and that desktop after a click on the close button of the notes
  window.\<close>

definition fullDesk :: desk_state where
  "fullDesk = (case runCalls (replicate 15 (OpenCall 0 ''w'')) initDesk of
                 Some s \<Rightarrow> s | None \<Rightarrow> initDesk)"

definition twoWindows :: desk_state where
  "twoWindows = (case runCalls [OpenCall 1 ''Calc'', OpenCall 4 ''Notes''] initDesk of
                   Some s \<Rightarrow> s | None \<Rightarrow> initDesk)"

definition afterCloseClick :: desk_state where
  "afterCloseClick = (case clickCloseButton 0 twoWindows of Some s \<Rightarrow> s | None \<Rightarrow> initDesk)"

section \<open>Pointer, drag and resize sessions (drawDesktopApp)\<close>

record pointer_state =
  mouseX :: int
  mouseY :: int
  prevMouseX :: int
  prevMouseY :: int
  dragging :: bool
  resizing :: bool
  dragOffX :: int
  dragOffY :: int
  dragWinIdx :: int

text \<open>The pointer when desktop mode is entered: centre of the screen, no session.\<close>

definition initPointer :: pointer_state where
  "initPointer = \<lparr> mouseX = 120, mouseY = 67, prevMouseX = 120, prevMouseY = 67,
     dragging = False, resizing = False, dragOffX = 0, dragOffY = 0, dragWinIdx = - 1 \<rparr>"

text \<open>The drag block: the origin follows the cursor minus the recorded offset and is then
  clamped, in the order of the source.\<close>

definition dragUpdate :: "int \<Rightarrow> int \<Rightarrow> int \<Rightarrow> int \<Rightarrow> DeskWindow \<Rightarrow> DeskWindow" where
  "dragUpdate mx my offX offY w =
     (let w1 = w\<lparr> win_x := mx - offX, win_y := my - offY \<rparr>;
          w2 = (if win_x w1 < 0 then w1\<lparr> win_x := 0 \<rparr> else w1);
          w3 = (if win_y w2 < 0 then w2\<lparr> win_y := 0 \<rparr> else w2);
          w4 = (if win_x w3 + win_w w3 > SCREEN_WIDTH
                then w3\<lparr> win_x := SCREEN_WIDTH - win_w w3 \<rparr> else w3);
          w5 = (if win_y w4 + win_h w4 > SCREEN_HEIGHT
                then w4\<lparr> win_y := SCREEN_HEIGHT - win_h w4 \<rparr> else w4)
      in w5)"

text \<open>The resize block: the new size is taken when it reaches the minimum, then clamped to
  the screen.\<close>

definition resizeUpdate :: "int \<Rightarrow> int \<Rightarrow> int \<Rightarrow> int \<Rightarrow> DeskWindow \<Rightarrow> DeskWindow" where
  "resizeUpdate mx my offX offY w =
     (let newW = mx - win_x w + offX;
          newH = my - win_y w + offY;
          w1 = (if newW \<ge> win_minW w then w\<lparr> win_w := newW \<rparr> else w);
          w2 = (if newH \<ge> win_minH w1 then w1\<lparr> win_h := newH \<rparr> else w1);
          w3 = (if win_x w2 + win_w w2 > SCREEN_WIDTH
                then w2\<lparr> win_w := SCREEN_WIDTH - win_x w2 \<rparr> else w2);
          w4 = (if win_y w3 + win_h w3 > SCREEN_HEIGHT
                then w3\<lparr> win_h := SCREEN_HEIGHT - win_y w3 \<rparr> else w3)
      in w4)"

text \<open>One pass over the cursor code of a frame, in three parts.  First the cursor moves by
  \<open>mouseSpeed\<close> in each held direction.\<close>

definition stepCursor :: "bool \<Rightarrow> bool \<Rightarrow> bool \<Rightarrow> bool \<Rightarrow> int \<Rightarrow> pointer_state \<Rightarrow> pointer_state" where
  "stepCursor up down left right mouseSpeed p =
     (let p1 = (if up then p\<lparr> mouseY := mouseY p - mouseSpeed \<rparr> else p);
          p2 = (if down then p1\<lparr> mouseY := mouseY p1 + mouseSpeed \<rparr> else p1);
          p3 = (if left then p2\<lparr> mouseX := mouseX p2 - mouseSpeed \<rparr> else p2);
          p4 = (if right then p3\<lparr> mouseX := mouseX p3 + mouseSpeed \<rparr> else p3)
      in p4)"

text \<open>Then it is clamped to the screen.\<close>

definition clampCursor :: "pointer_state \<Rightarrow> pointer_state" where
  "clampCursor p =
     (let p1 = (if mouseX p < 0 then p\<lparr> mouseX := 0 \<rparr> else p);
          p2 = (if mouseX p1 \<ge> SCREEN_WIDTH then p1\<lparr> mouseX := SCREEN_WIDTH - 1 \<rparr> else p1);
          p3 = (if mouseY p2 < 0 then p2\<lparr> mouseY := 0 \<rparr> else p2);
          p4 = (if mouseY p3 \<ge> SCREEN_HEIGHT then p3\<lparr> mouseY := SCREEN_HEIGHT - 1 \<rparr> else p3)
      in p4)"

text \<open>Then the drag block and the resize block run on \<open>deskWins[dragWinIdx]\<close>, each when its
  session is active, \<open>dragWinIdx >= 0\<close> and the cursor moved.\<close>

definition cursorMoved :: "pointer_state \<Rightarrow> bool" where
  "cursorMoved p \<longleftrightarrow> mouseX p \<noteq> prevMouseX p \<or> mouseY p \<noteq> prevMouseY p"

definition sessionUpdate :: "pointer_state \<Rightarrow> DeskWindow list \<Rightarrow> DeskWindow list option" where
  "sessionUpdate p ws =
     (let i = nat (dragWinIdx p) in
      if (dragging p \<or> resizing p) \<and> 0 \<le> dragWinIdx p \<and> cursorMoved p \<and> \<not> i < length ws
      then None
      else
        (let ws1 = (if dragging p \<and> 0 \<le> dragWinIdx p \<and> cursorMoved p
                    then ws[i := dragUpdate (mouseX p) (mouseY p) (dragOffX p) (dragOffY p) (ws ! i)]
                    else ws);
             ws2 = (if resizing p \<and> 0 \<le> dragWinIdx p \<and> cursorMoved p
                    then ws1[i := resizeUpdate (mouseX p) (mouseY p) (dragOffX p) (dragOffY p)
                                    (ws1 ! i)]
                    else ws1)
         in Some ws2))"

text \<open>The whole pass: the old position is remembered, and the cursor stays where it is when it
  is hidden or Paint has the focus.  The joystick directions, the speed chosen by the hover
  tests and the \<open>cursorHidden\<close> flag are inputs.\<close>

definition pointerMove ::
  "bool \<Rightarrow> bool \<Rightarrow> bool \<Rightarrow> bool \<Rightarrow> int \<Rightarrow> bool \<Rightarrow> pointer_state \<times> desk_state
     \<Rightarrow> (pointer_state \<times> desk_state) option" where
  "pointerMove up down left right mouseSpeed cursorHidden ps =
     (let p = fst ps; s = snd ps in
      if 0 \<le> activeWin s \<and> \<not> nat (activeWin s) < length (deskWins s) then None
      else
        (let paintActive = (0 \<le> activeWin s \<and> win_appType (deskWins s ! nat (activeWin s)) = 10);
             p0 = p\<lparr> prevMouseX := mouseX p, prevMouseY := mouseY p \<rparr>;
             p1 = (if \<not> cursorHidden \<and> \<not> paintActive
                   then stepCursor up down left right mouseSpeed p0 else p0);
             p2 = clampCursor p1
         in map_option (\<lambda>ws. (p2, s\<lparr> deskWins := ws \<rparr>)) (sessionUpdate p2 (deskWins s))))"

subsection \<open>Hit tests and the start and end of a session\<close>

text \<open>\<open>deskPtrHits\<close>: a 6x6 box around the hotspot two pixels right of and three below the
  cursor position.\<close>

definition deskPtrHits :: "int \<Rightarrow> int \<Rightarrow> int \<Rightarrow> int \<Rightarrow> int \<Rightarrow> int \<Rightarrow> bool" where
  "deskPtrHits px py x y w h =
     (let hx = px + 2; hy = py + 3 in
      hx + 3 \<ge> x \<and> hx - 3 < x + w \<and> hy + 3 \<ge> y \<and> hy - 3 < y + h)"

definition DESK_BTN_SIZE :: int where
  "DESK_BTN_SIZE = 16"

definition DESK_TITLEBAR_H :: int where
  "DESK_TITLEBAR_H = 18"

definition deskPtrHitsClose :: "pointer_state \<Rightarrow> DeskWindow \<Rightarrow> bool" where
  "deskPtrHitsClose p w =
     (if win_fullscreen w then False
      else (let wx = (if win_maximized w then 0 else win_x w);
                wy = (if win_maximized w then 0 else win_y w);
                ww = (if win_maximized w then SCREEN_WIDTH else win_w w)
            in deskPtrHits (mouseX p) (mouseY p) (wx + ww - DESK_BTN_SIZE - 2) (wy + 1)
                 DESK_BTN_SIZE DESK_BTN_SIZE))"

definition deskPtrHitsMaximize :: "pointer_state \<Rightarrow> DeskWindow \<Rightarrow> bool" where
  "deskPtrHitsMaximize p w =
     (if win_fullscreen w then False
      else (let wx = (if win_maximized w then 0 else win_x w);
                wy = (if win_maximized w then 0 else win_y w);
                ww = (if win_maximized w then SCREEN_WIDTH else win_w w)
            in deskPtrHits (mouseX p) (mouseY p) (wx + ww - 2 * DESK_BTN_SIZE - 4) (wy + 1)
                 DESK_BTN_SIZE DESK_BTN_SIZE))"

definition deskPtrHitsResize :: "pointer_state \<Rightarrow> DeskWindow \<Rightarrow> bool" where
  "deskPtrHitsResize p w =
     (if win_maximized w \<or> win_fullscreen w then False
      else deskPtrHits (mouseX p) (mouseY p) (win_x w + win_w w - 4) (win_y w + win_h w - 4) 12 12)"

definition deskPtrHitsTitleBar :: "pointer_state \<Rightarrow> DeskWindow \<Rightarrow> bool" where
  "deskPtrHitsTitleBar p w =
     (if win_fullscreen w then False
      else (let wx = (if win_maximized w then 0 else win_x w);
                wy = (if win_maximized w then 0 else win_y w);
                ww = (if win_maximized w then SCREEN_WIDTH else win_w w)
            in deskPtrHits (mouseX p) (mouseY p) wx wy (ww - 2 * DESK_BTN_SIZE - 4)
                 DESK_TITLEBAR_H))"

text \<open>\<open>deskPtrHitsWindow\<close>: the first z-order position, front to back from \<open>i\<close>, whose open
  window contains the pointer; fullscreen and maximized windows cover the screen.
  \<open>Some (-1)\<close> means no window is hit.\<close>

function deskPtrHitsWindow :: "nat \<Rightarrow> pointer_state \<Rightarrow> desk_state \<Rightarrow> int option" where
  "deskPtrHitsWindow i p s =
     (if i < deskWinCount s
      then (if \<not> i < length (deskWinOrder s) then None
            else
              (let idx = deskWinOrder s ! i in
               if idx < 0 \<or> \<not> nat idx < length (deskWins s) then None
               else
                 (let w = deskWins s ! nat idx;
                      full = (win_fullscreen w \<or> win_maximized w);
                      wx = (if full then 0 else win_x w);
                      wy = (if full then 0 else win_y w);
                      ww = (if full then SCREEN_WIDTH else win_w w);
                      wh = (if full then SCREEN_HEIGHT else win_h w)
                  in if win_open w \<and> deskPtrHits (mouseX p) (mouseY p) wx wy ww wh
                     then Some (int i)
                     else deskPtrHitsWindow (Suc i) p s)))
      else Some (- 1))"
  by pat_completeness auto
termination
  by (relation "measure (\<lambda>(i, p, s). deskWinCount s - i)") auto

declare deskPtrHitsWindow.simps [simp del]

text \<open>The part of the click handler that deals with windows (pointer above a visible taskbar
  or taskbar hidden, start menu closed, no popup).  A running session ends on any click.
  Otherwise the hit window is brought to the front and focused, and the click goes, in this
  order, to the close button, the maximize button, the resize grip (resize session with the
  fixed offset 8), the title bar (drag session with the offset between cursor and origin,
  unless the window is maximized) or the content area, which belongs to the hosted app.\<close>

datatype click_target = HitClose | HitMaximize | HitResize | HitTitleBar | HitContent

definition clickTarget :: "pointer_state \<Rightarrow> DeskWindow \<Rightarrow> click_target" where
  "clickTarget p w =
     (if deskPtrHitsClose p w then HitClose
      else if deskPtrHitsMaximize p w then HitMaximize
      else if deskPtrHitsResize p w then HitResize
      else if deskPtrHitsTitleBar p w then HitTitleBar
      else HitContent)"

definition focusHit :: "int \<Rightarrow> desk_state \<Rightarrow> desk_state option" where
  "focusHit hitOrder s =
     (if \<not> nat hitOrder < length (deskWinOrder s) then None
      else case deskBringToFront hitOrder s of
             None \<Rightarrow> None
           | Some s1 \<Rightarrow> Some (s1\<lparr> activeWin := deskWinOrder s ! nat hitOrder \<rparr>))"

definition clickWindows :: "pointer_state \<times> desk_state \<Rightarrow> (pointer_state \<times> desk_state) option" where
  "clickWindows ps =
     (let p = fst ps; s = snd ps in
      if dragging p then Some (p\<lparr> dragging := False, dragWinIdx := - 1 \<rparr>, s)
      else if resizing p then Some (p\<lparr> resizing := False, dragWinIdx := - 1 \<rparr>, s)
      else
        (case deskPtrHitsWindow 0 p s of
           None \<Rightarrow> None
         | Some hitOrder \<Rightarrow>
             if hitOrder < 0 then Some (p, s)
             else
               (case focusHit hitOrder s of
                  None \<Rightarrow> None
                | Some s2 \<Rightarrow>
                    (let winIdx = activeWin s2 in
                     if winIdx < 0 \<or> \<not> nat winIdx < length (deskWins s2) then None
                     else
                       (let w = deskWins s2 ! nat winIdx in
                        case clickTarget p w of
                          HitClose \<Rightarrow> map_option (Pair p) (clickCloseButton hitOrder s)
                        | HitMaximize \<Rightarrow>
                            Some (p, s2\<lparr> deskWins := (deskWins s2)
                                     [nat winIdx := w\<lparr> win_maximized := \<not> win_maximized w \<rparr>] \<rparr>)
                        | HitResize \<Rightarrow>
                            Some (p\<lparr> resizing := True, dragWinIdx := winIdx,
                                    dragOffX := 8, dragOffY := 8 \<rparr>, s2)
                        | HitTitleBar \<Rightarrow>
                            (if \<not> win_maximized w
                             then Some (p\<lparr> dragging := True, dragWinIdx := winIdx,
                                          dragOffX := mouseX p - win_x w,
                                          dragOffY := mouseY p - win_y w \<rparr>, s2)
                             else Some (p, s2))
                        | HitContent \<Rightarrow> Some (p, s2))))))"

text \<open>The geometry every window record keeps: origin on the screen, size within the screen.\<close>

definition geomOK :: "DeskWindow \<Rightarrow> bool" where
  "geomOK w \<longleftrightarrow> 0 \<le> win_x w \<and> 0 \<le> win_y w \<and> win_w w \<le> SCREEN_WIDTH \<and> win_h w \<le> SCREEN_HEIGHT"

definition geomInv :: "desk_state \<Rightarrow> bool" where
  "geomInv s \<longleftrightarrow> list_all geomOK (deskWins s)"

text \<open>Histories of the desktop: windows are opened and closed, the pointer moves, clicks
  land on windows.\<close>

datatype gui_event =
    EvOpen nat string
  | EvClose int
  | EvMove bool bool bool bool int bool
  | EvClick

fun guiStep :: "gui_event \<Rightarrow> pointer_state \<times> desk_state \<Rightarrow> (pointer_state \<times> desk_state) option" where
  "guiStep (EvOpen appType title) ps = map_option (Pair (fst ps)) (deskOpenWindow appType title (snd ps))"
| "guiStep (EvClose winIdx) ps = map_option (Pair (fst ps)) (deskCloseWindow winIdx (snd ps))"
| "guiStep (EvMove up down left right mouseSpeed cursorHidden) ps =
     pointerMove up down left right mouseSpeed cursorHidden ps"
| "guiStep EvClick ps = clickWindows ps"

fun guiRun :: "gui_event list \<Rightarrow> pointer_state \<times> desk_state \<Rightarrow> (pointer_state \<times> desk_state) option" where
  "guiRun [] ps = Some ps"
| "guiRun (e # es) ps = (case guiStep e ps of None \<Rightarrow> None | Some ps' \<Rightarrow> guiRun es ps')"


text \<open>A path to the title bar of a Files window in slot 0, a click that starts dragging it,
  and a drag to the right edge of the screen.\<close>

definition dragPath :: "gui_event list" where
  "dragPath = [EvOpen 6 ''Files'']
     @ replicate 10 (EvMove True False False False 4 False)
     @ [EvClick]
     @ replicate 29 (EvMove False False False True 4 False)"


text \<open>The desktop after a history that starts at boot.\<close>

definition runFromBoot :: "gui_event list \<Rightarrow> pointer_state \<times> desk_state" where
  "runFromBoot es = (case guiRun es (initPointer, initDesk) of
                       Some ps \<Rightarrow> ps | None \<Rightarrow> (initPointer, initDesk))"



definition dragStart :: "pointer_state \<times> desk_state" where
  "dragStart = runFromBoot dragPath"

definition dragDone :: "pointer_state \<times> desk_state" where
  "dragDone = runFromBoot (dragPath @ [EvMove False False False True 4 False])"



section \<open>The main loop: time, storage supervision, chord and hold-to-repeat\<close>

text \<open>
  \<open>millis()\<close> and the timestamps kept by \<open>loop\<close> are \<open>unsigned long\<close>, 32 bits on the ESP32.
  Times are integers from \<open>0\<close> to \<open>2^32 - 1\<close>, and \<open>msSince now t\<close> is the unsigned difference
  \<open>now - t\<close> with its wrap-around.
\<close>

definition msSince :: "int \<Rightarrow> int \<Rightarrow> int" where
  "msSince now t = (now - t) mod 2 ^ 32"

subsection \<open>Storage hot-swap supervision\<close>

datatype screen = SCREEN_HOME | SCREEN_DRAWER | SCREEN_APP | SCREEN_SWITCHER

definition APP_DESKTOP :: int where
  "APP_DESKTOP = 0"

record sd_state =
  sdCardMounted :: bool
  sdCardRemoved :: bool
  sdCardWarningCount :: int
  biosRequireSD :: bool
  lastSDCheck :: int
  lastRemountTry :: int
  deskNeedRedraw :: bool
  desktopMode :: bool
  currentScreen :: screen
  selectedApp :: int
  osDataLoads :: nat
  wifiCredentialLoads :: nat
  notifications :: "string list"
  desk :: desk_state

text \<open>Closing every window when storage is declared removed:
  \<open>for (i = 0; i < MAX_DESK_WINDOWS; i++) deskWins[i].open = false; deskWinCount = 0; activeWin = -1;\<close>\<close>

function closeAllFrom :: "nat \<Rightarrow> DeskWindow list \<Rightarrow> DeskWindow list option" where
  "closeAllFrom i ws =
     (if i < MAX_DESK_WINDOWS
      then (if i < length ws then closeAllFrom (Suc i) (ws[i := (ws ! i)\<lparr> win_open := False \<rparr>])
            else None)
      else Some ws)"
  by pat_completeness auto
termination
  by (relation "measure (\<lambda>(i, ws). MAX_DESK_WINDOWS - i)") auto

declare closeAllFrom.simps [simp del]

definition closeAllWindows :: "desk_state \<Rightarrow> desk_state option" where
  "closeAllWindows d =
     map_option (\<lambda>ws. d\<lparr> deskWins := ws, deskWinCount := 0, activeWin := - 1 \<rparr>)
       (closeAllFrom 0 (deskWins d))"

text \<open>The periodic check, every two seconds while the card is mounted.  \<open>probeOK\<close> is what
  \<open>checkSDCard()\<close> returns when it is called.\<close>

definition sdCheck :: "int \<Rightarrow> bool \<Rightarrow> sd_state \<Rightarrow> sd_state option" where
  "sdCheck currentTime probeOK s =
     (if sdCardMounted s \<and> \<not> sdCardRemoved s \<and> msSince currentTime (lastSDCheck s) \<ge> 2000
      then
        (let s1 = s\<lparr> lastSDCheck := currentTime \<rparr> in
         if \<not> probeOK
         then
           (let s2 = s1\<lparr> sdCardWarningCount := sdCardWarningCount s1 + 1,
                          notifications := notifications s1 @ [''SD Warning!''] \<rparr> in
            if sdCardWarningCount s2 \<ge> 2
            then
              (let s3 = s2\<lparr> sdCardMounted := False, sdCardWarningCount := 0 \<rparr> in
               if biosRequireSD s3
               then (case closeAllWindows (desk s3) of
                       None \<Rightarrow> None
                     | Some d \<Rightarrow>
                         Some (s3\<lparr> sdCardRemoved := True, desktopMode := True,
                                   currentScreen := SCREEN_APP, selectedApp := APP_DESKTOP,
                                   desk := d \<rparr>))
               else Some s3)
            else Some s2)
         else Some (s1\<lparr> sdCardWarningCount := 0 \<rparr>))
      else Some s)"

text \<open>The remount attempt, every five seconds while no card is mounted.  \<open>remountOK\<close> is what
  \<open>remountSDCard()\<close> returns when it is called; on success that function sets
  \<open>sdCardMounted\<close> and clears \<open>sdCardRemoved\<close> itself.\<close>

definition sdRemount :: "int \<Rightarrow> bool \<Rightarrow> sd_state \<Rightarrow> sd_state" where
  "sdRemount currentTime remountOK s =
     (if \<not> sdCardMounted s \<and> msSince currentTime (lastRemountTry s) \<ge> 5000
      then
        (let s1 = s\<lparr> lastRemountTry := currentTime \<rparr> in
         if remountOK
         then s1\<lparr> sdCardMounted := True, sdCardRemoved := False,
                  osDataLoads := Suc (osDataLoads s1),
                  wifiCredentialLoads := Suc (wifiCredentialLoads s1),
                  notifications := notifications s1 @ [''SD Reloaded!''],
                  deskNeedRedraw := True \<rparr>
         else s1)
      else s)"

text \<open>Safe mode: while the card is removed and required, \<open>loop\<close> draws the popup and returns,
  so nothing after this point runs in that pass.\<close>

definition safeMode :: "sd_state \<Rightarrow> bool" where
  "safeMode s \<longleftrightarrow> sdCardRemoved s \<and> biosRequireSD s"

text \<open>The storage part of one pass of \<open>loop\<close>: the new state and whether the pass ended in
  safe mode.\<close>

definition sdTick :: "int \<Rightarrow> bool \<Rightarrow> bool \<Rightarrow> sd_state \<Rightarrow> (sd_state \<times> bool) option" where
  "sdTick currentTime probeOK remountOK s =
     map_option (\<lambda>s1. (let s2 = sdRemount currentTime remountOK s1 in (s2, safeMode s2)))
       (sdCheck currentTime probeOK s)"

text \<open>A run of passes, each with its time and the two probe outcomes.\<close>

fun sdRun :: "(int \<times> bool \<times> bool) list \<Rightarrow> sd_state \<Rightarrow> sd_state option" where
  "sdRun [] s = Some s"
| "sdRun ((t, probeOK, remountOK) # ticks) s =
     (case sdTick t probeOK remountOK s of None \<Rightarrow> None | Some (s', g) \<Rightarrow> sdRun ticks s')"

text \<open>The state after boot with the card mounted and storage required, two windows open.\<close>

definition sdBoot :: sd_state where
  "sdBoot = \<lparr> sdCardMounted = True, sdCardRemoved = False, sdCardWarningCount = 0,
     biosRequireSD = True, lastSDCheck = 0, lastRemountTry = 0, deskNeedRedraw = False,
     desktopMode = True, currentScreen = SCREEN_APP, selectedApp = APP_DESKTOP,
     osDataLoads = 1, wifiCredentialLoads = 1, notifications = [], desk = twoWindows \<rparr>"

text \<open>Scenario C with a pass every 33 ms: the card is out from the start and back in from
  9 s on.\<close>

definition scenarioC :: "(int \<times> bool \<times> bool) list" where
  "scenarioC = map (\<lambda>k. (33 * k, 9000 \<le> 33 * k, 9000 \<le> 33 * k)) [1..304]"

text \<open>Safe mode as a state of the storage flags: no card mounted, the card declared removed,
  storage required.\<close>

definition inSafeMode :: "sd_state \<Rightarrow> bool" where
  "inSafeMode s \<longleftrightarrow> \<not> sdCardMounted s \<and> sdCardRemoved s \<and> biosRequireSD s"

subsection \<open>The SET + RST chord (screenshot)\<close>

record chord_state =
  screenshotHoldStart :: int
  screenshotTaken :: bool
  screenshotComboUsed :: bool
  screenshots :: nat

definition chordIdle :: chord_state where
  "chordIdle = \<lparr> screenshotHoldStart = 0, screenshotTaken = False,
     screenshotComboUsed = False, screenshots = 0 \<rparr>"

text \<open>The chord block of one pass of \<open>loop\<close>.  \<open>screenshots\<close> counts the calls of
  \<open>takeScreenshot()\<close>.  The second component tells whether the pass returns here, before any
  single-button handling.\<close>

definition chordTick :: "int \<Rightarrow> bool \<Rightarrow> bool \<Rightarrow> chord_state \<Rightarrow> chord_state \<times> bool" where
  "chordTick currentTime joySet joyRst c =
     (if joySet \<and> joyRst
      then
        (let c1 = (if screenshotHoldStart c = 0
                   then c\<lparr> screenshotHoldStart := currentTime, screenshotTaken := False,
                           screenshotComboUsed := True \<rparr>
                   else c);
             c2 = (if \<not> screenshotTaken c1 \<and> msSince currentTime (screenshotHoldStart c1) \<ge> 1000
                   then c1\<lparr> screenshots := Suc (screenshots c1), screenshotTaken := True \<rparr>
                   else c1)
         in (c2, True))
      else if screenshotComboUsed c \<and> (\<not> joySet \<or> \<not> joyRst)
      then
        ((if \<not> joySet \<and> \<not> joyRst
          then c\<lparr> screenshotComboUsed := False, screenshotHoldStart := 0,
                  screenshotTaken := False \<rparr>
          else c), True)
      else (c\<lparr> screenshotHoldStart := 0, screenshotTaken := False \<rparr>, False))"

text \<open>A run of passes; the result lists, pass by pass, whether the pass returned in the chord
  block.\<close>

fun chordRun :: "(int \<times> bool \<times> bool) list \<Rightarrow> chord_state \<Rightarrow> chord_state \<times> bool list" where
  "chordRun [] c = (c, [])"
| "chordRun ((t, joySet, joyRst) # ticks) c =
     (let (c1, r) = chordTick t joySet joyRst c;
          (c2, rs) = chordRun ticks c1
      in (c2, r # rs))"

text \<open>Both buttons pressed at 1000 ms, RST let go at 1500 ms and pressed again at 1900 ms.\<close>

definition interruptedChord :: "(int \<times> bool \<times> bool) list" where
  "interruptedChord = [(1000, True, True), (1500, True, False), (1900, True, True)]"

subsection \<open>Hold-to-repeat\<close>

datatype level = LOW | HIGH

datatype hold_event = NoEvent | Confirmed | Repeat

text \<open>The static variables of the two hold-to-repeat blocks of \<open>loop\<close> and the last sampled
  levels of the direction buttons (buttons are active low).\<close>

record btn_state =
  gameHoldStart :: int
  gameLastRepeat :: int
  gameHeldDir :: int
  gameFirstPress :: bool
  lastRepeat :: int
  holdStart :: int
  upDebounceStart :: int
  downDebounceStart :: int
  upDebounced :: bool
  downDebounced :: bool
  upActed :: bool
  downActed :: bool
  lastUpState :: level
  lastDownState :: level
  lastLeftState :: level
  lastRightState :: level

definition btnIdle :: btn_state where
  "btnIdle = \<lparr> gameHoldStart = 0, gameLastRepeat = 0, gameHeldDir = 0, gameFirstPress = True,
     lastRepeat = 0, holdStart = 0, upDebounceStart = 0, downDebounceStart = 0,
     upDebounced = False, downDebounced = False, upActed = False, downActed = False,
     lastUpState = HIGH, lastDownState = HIGH, lastLeftState = HIGH, lastRightState = HIGH \<rparr>"

text \<open>The direction block of the game apps (Paint, Snake, Tetris outside the desktop), in
  three parts; the MID button, which never repeats, has variables of its own and is left
  out.  First a new press records the held direction and the start of the hold, and the
  release of all directions clears it.\<close>

definition gameTrack :: "int \<Rightarrow> level \<Rightarrow> level \<Rightarrow> level \<Rightarrow> level \<Rightarrow> btn_state \<Rightarrow> btn_state" where
  "gameTrack currentTime upState downState leftState rightState b =
     (let upHeld = (upState = LOW); downHeld = (downState = LOW);
          leftHeld = (leftState = LOW); rightHeld = (rightState = LOW);
          upPressed = (upHeld \<and> lastUpState b = HIGH);
          downPressed = (downHeld \<and> lastDownState b = HIGH);
          leftPressed = (leftHeld \<and> lastLeftState b = HIGH);
          rightPressed = (rightHeld \<and> lastRightState b = HIGH);
          b1 = (if upPressed
                then b\<lparr> gameHoldStart := currentTime, gameHeldDir := 1, gameFirstPress := True \<rparr>
                else if downPressed
                then b\<lparr> gameHoldStart := currentTime, gameHeldDir := 2, gameFirstPress := True \<rparr>
                else if leftPressed
                then b\<lparr> gameHoldStart := currentTime, gameHeldDir := 3, gameFirstPress := True \<rparr>
                else if rightPressed
                then b\<lparr> gameHoldStart := currentTime, gameHeldDir := 4, gameFirstPress := True \<rparr>
                else b)
      in if \<not> upHeld \<and> \<not> downHeld \<and> \<not> leftHeld \<and> \<not> rightHeld
         then b1\<lparr> gameHeldDir := 0, gameFirstPress := True \<rparr>
         else b1)"

text \<open>Then the trigger: the first press once 50 ms have passed, a repeat once the hold has
  lasted more than \<open>holdDelay = 400\<close> ms and more than \<open>repeatDelay = 150\<close> ms have passed since
  the last trigger.  The result carries the kind of trigger and the direction
  (\<open>triggerDir\<close>, 0 for none).\<close>

definition gameTrigger :: "int \<Rightarrow> btn_state \<Rightarrow> btn_state \<times> hold_event \<times> int" where
  "gameTrigger currentTime b =
     (let repeatDelay = 150; holdDelay = 400;
          holdLongEnough = (gameHoldStart b > 0 \<and> msSince currentTime (gameHoldStart b) > holdDelay)
      in if gameHeldDir b > 0
         then (if gameFirstPress b \<and> msSince currentTime (gameHoldStart b) \<ge> 50
               then (b\<lparr> gameFirstPress := False, gameLastRepeat := currentTime \<rparr>,
                     Confirmed, gameHeldDir b)
               else if \<not> gameFirstPress b \<and> holdLongEnough
                       \<and> msSince currentTime (gameLastRepeat b) > repeatDelay
               then (b\<lparr> gameLastRepeat := currentTime \<rparr>, Repeat, gameHeldDir b)
               else (b, NoEvent, 0))
         else (b, NoEvent, 0))"

text \<open>Last the sampled levels are remembered.\<close>

definition gameDirTick ::
  "int \<Rightarrow> level \<Rightarrow> level \<Rightarrow> level \<Rightarrow> level \<Rightarrow> btn_state \<Rightarrow> btn_state \<times> hold_event \<times> int" where
  "gameDirTick currentTime upState downState leftState rightState b =
     (let (b1, ev, triggerDir) =
            gameTrigger currentTime (gameTrack currentTime upState downState leftState rightState b)
      in (b1\<lparr> lastUpState := upState, lastDownState := downState,
               lastLeftState := leftState, lastRightState := rightState \<rparr>, ev, triggerDir))"

text \<open>The Up/Down block of the menus and ordinary apps.  A press starts a 50 ms debounce; its
  end confirms the press and starts the hold.\<close>

definition navDebounce :: "int \<Rightarrow> level \<Rightarrow> level \<Rightarrow> btn_state \<Rightarrow> btn_state" where
  "navDebounce currentTime upState downState b =
     (let upHeld = (upState = LOW); downHeld = (downState = LOW);
          b1 = (if upHeld \<and> lastUpState b = HIGH
                then b\<lparr> upDebounceStart := currentTime, upDebounced := False, upActed := False \<rparr>
                else b);
          b2 = (if upHeld \<and> \<not> upDebounced b1 \<and> msSince currentTime (upDebounceStart b1) \<ge> 50
                then b1\<lparr> upDebounced := True, holdStart := currentTime \<rparr> else b1);
          b3 = (if \<not> upHeld then b2\<lparr> upDebounced := False, upActed := False \<rparr> else b2);
          b4 = (if downHeld \<and> lastDownState b3 = HIGH
                then b3\<lparr> downDebounceStart := currentTime, downDebounced := False,
                         downActed := False \<rparr>
                else b3);
          b5 = (if downHeld \<and> \<not> downDebounced b4 \<and> msSince currentTime (downDebounceStart b4) \<ge> 50
                then b4\<lparr> downDebounced := True, holdStart := currentTime \<rparr> else b4);
          b6 = (if \<not> downHeld then b5\<lparr> downDebounced := False, downActed := False \<rparr> else b5)
      in if \<not> upHeld \<and> \<not> downHeld then b6\<lparr> holdStart := 0 \<rparr> else b6)"

text \<open>Then the triggers.  \<open>repeatDelay\<close> is 150 ms, or 80 ms in the Notes and Timer apps
  (\<open>fastRepeat\<close>).  A trigger is reported as \<open>Confirmed\<close> when it comes from a debounced press
  that has not acted yet and as \<open>Repeat\<close> otherwise.\<close>

definition navTrigger ::
  "int \<Rightarrow> level \<Rightarrow> level \<Rightarrow> bool \<Rightarrow> btn_state \<Rightarrow> btn_state \<times> hold_event \<times> hold_event" where
  "navTrigger currentTime upState downState fastRepeat b =
     (let upHeld = (upState = LOW); downHeld = (downState = LOW);
          repeatDelay = (if fastRepeat then 80 else 150);
          holdLongEnough = (holdStart b > 0 \<and> msSince currentTime (holdStart b) > 400);
          repeatDue = (holdLongEnough \<and> msSince currentTime (lastRepeat b) > repeatDelay);
          shouldTriggerUp = ((upDebounced b \<and> \<not> upActed b) \<or> (upHeld \<and> upDebounced b \<and> repeatDue));
          shouldTriggerDown =
            ((downDebounced b \<and> \<not> downActed b) \<or> (downHeld \<and> downDebounced b \<and> repeatDue));
          upEvent = (if upDebounced b \<and> \<not> upActed b then Confirmed
                     else if shouldTriggerUp then Repeat else NoEvent);
          downEvent = (if downDebounced b \<and> \<not> downActed b then Confirmed
                       else if shouldTriggerDown then Repeat else NoEvent)
      in if shouldTriggerUp \<or> shouldTriggerDown
         then
           (let b1 = (if upDebounced b \<and> \<not> upActed b then b\<lparr> upActed := True \<rparr> else b);
                b2 = (if downDebounced b1 \<and> \<not> downActed b1 then b1\<lparr> downActed := True \<rparr> else b1)
            in (b2\<lparr> lastRepeat := currentTime \<rparr>, upEvent, downEvent))
         else (b, NoEvent, NoEvent))"

definition navTick ::
  "int \<Rightarrow> level \<Rightarrow> level \<Rightarrow> bool \<Rightarrow> btn_state \<Rightarrow> btn_state \<times> hold_event \<times> hold_event" where
  "navTick currentTime upState downState fastRepeat b =
     (let (b1, upEvent, downEvent) =
            navTrigger currentTime upState downState fastRepeat
              (navDebounce currentTime upState downState b)
      in (b1\<lparr> lastUpState := upState, lastDownState := downState \<rparr>, upEvent, downEvent))"

text \<open>The events of the Up button over a run of passes in which Up is seen held at the given
  times and no other direction is pressed, in the game block and in the menu block.\<close>

fun gameHoldUp :: "int list \<Rightarrow> btn_state \<Rightarrow> hold_event list" where
  "gameHoldUp [] b = []"
| "gameHoldUp (t # ts) b =
     (let (b1, ev, triggerDir) = gameDirTick t LOW HIGH HIGH HIGH b in ev # gameHoldUp ts b1)"

fun navHoldUp :: "int list \<Rightarrow> btn_state \<Rightarrow> hold_event list" where
  "navHoldUp [] b = []"
| "navHoldUp (t # ts) b =
     (let (b1, upEvent, downEvent) = navTick t LOW HIGH False b in upEvent # navHoldUp ts b1)"

definition countEvents :: "hold_event \<Rightarrow> hold_event list \<Rightarrow> nat" where
  "countEvents e evs = length (filter (\<lambda>x. x = e) evs)"

text \<open>The passes that see a button held for \<open>d\<close> ms when a pass runs every 33 ms and the first
  of them, at time \<open>t0\<close>, coincides with the press: \<open>t0, t0 + 33, ...\<close> below \<open>t0 + d\<close>.\<close>

definition passesEvery33 :: "int \<Rightarrow> int \<Rightarrow> int list" where
  "passesEvery33 t0 d = map (\<lambda>k. t0 + 33 * k) [0..(d - 1) div 33]"

text \<open>The spec's count of repeat events for a hold of \<open>d\<close> ms.\<close>

definition specRepeats :: "int \<Rightarrow> int" where
  "specRepeats d = (if d > 400 then (d - 400) div 150 else 0)"

text \<open>What the chord block maintains: a running hold timer belongs to a session whose
  \<open>used\<close> flag is set.\<close>

definition chordInv :: "chord_state \<Rightarrow> bool" where
  "chordInv c \<longleftrightarrow> (screenshotHoldStart c \<noteq> 0 \<longrightarrow> screenshotComboUsed c)"

definition someButtonHeld :: "int \<times> bool \<times> bool \<Rightarrow> bool" where
  "someButtonHeld tick \<longleftrightarrow> fst (snd tick) \<or> snd (snd tick)"

definition chordHeld :: chord_state where
  "chordHeld = fst (chordRun interruptedChord chordIdle)"

text \<open>The repeat branch of both blocks while one button stays held, as a function of the pass
  times alone.  After the confirmed event, with the hold started at \<open>hs\<close> and the last event
  at \<open>lr\<close>, the code fires a repeat on a pass when \<open>hs\<close> is not zero, the pass comes more
  than 400 ms after \<open>hs\<close> and more than 150 ms after \<open>lr\<close>.  The test \<open>hs > 0\<close> is the code's
  \<open>gameHoldStart > 0\<close> and \<open>holdStart > 0\<close>: a start time of zero stands for no hold.\<close>

fun repeatPhase :: "int \<Rightarrow> int \<Rightarrow> int list \<Rightarrow> hold_event list" where
  "repeatPhase hs lr [] = []"
| "repeatPhase hs lr (t # ts) =
     (if hs > 0 \<and> msSince t hs > 400 \<and> msSince t lr > 150
      then Repeat # repeatPhase hs t ts
      else NoEvent # repeatPhase hs lr ts)"

text \<open>Before it, in the game block the hold starts with the press at \<open>hs\<close> and the confirmed
  event fires on the first pass at least 50 ms later.\<close>

fun gameConfirmPhase :: "int \<Rightarrow> int list \<Rightarrow> hold_event list" where
  "gameConfirmPhase hs [] = []"
| "gameConfirmPhase hs (t # ts) =
     (if msSince t hs \<ge> 50 then Confirmed # repeatPhase hs t ts
      else NoEvent # gameConfirmPhase hs ts)"

text \<open>In the menu block the debounce starts with the press at \<open>ds\<close>, and the pass that ends it
  both fires the confirmed event and starts the hold.\<close>

fun navConfirmPhase :: "int \<Rightarrow> int list \<Rightarrow> hold_event list" where
  "navConfirmPhase ds [] = []"
| "navConfirmPhase ds (t # ts) =
     (if msSince t ds \<ge> 50 then Confirmed # repeatPhase t t ts
      else NoEvent # navConfirmPhase ds ts)"

text \<open>The largest number of repeat events that fit up to time \<open>T\<close> when the next one cannot
  come before \<open>m\<close> and consecutive ones are at least 151 ms apart.\<close>

definition repBound :: "int \<Rightarrow> int \<Rightarrow> nat" where
  "repBound m T = (if T < m then 0 else nat ((T - m) div 151 + 1))"

text \<open>The timing rule by itself, with no test of the start time: a repeat on every pass more
  than 400 ms after the start \<open>hs\<close> of the hold and more than 150 ms after the last event
  \<open>lr\<close>; one confirmed event on the first pass at least 50 ms after the press, the hold
  counted from the press (game block) or from that pass (menu block).\<close>

fun repeatRule :: "int \<Rightarrow> int \<Rightarrow> int list \<Rightarrow> hold_event list" where
  "repeatRule hs lr [] = []"
| "repeatRule hs lr (t # ts) =
     (if msSince t hs > 400 \<and> msSince t lr > 150
      then Repeat # repeatRule hs t ts
      else NoEvent # repeatRule hs lr ts)"

fun gameHoldRule :: "int \<Rightarrow> int list \<Rightarrow> hold_event list" where
  "gameHoldRule hs [] = []"
| "gameHoldRule hs (t # ts) =
     (if msSince t hs \<ge> 50 then Confirmed # repeatRule hs t ts
      else NoEvent # gameHoldRule hs ts)"

fun navHoldRule :: "int \<Rightarrow> int list \<Rightarrow> hold_event list" where
  "navHoldRule ds [] = []"
| "navHoldRule ds (t # ts) =
     (if msSince t ds \<ge> 50 then Confirmed # repeatRule t t ts
      else NoEvent # navHoldRule ds ts)"

text \<open>One confirmed event and nothing after it: what is left of the rule when the repeat
  branch never fires.\<close>

fun confirmOnce :: "int \<Rightarrow> int list \<Rightarrow> hold_event list" where
  "confirmOnce hs [] = []"
| "confirmOnce hs (t # ts) =
     (if msSince t hs \<ge> 50 then Confirmed # replicate (length ts) NoEvent
      else NoEvent # confirmOnce hs ts)"

section \<open>Frame buffer and compositor (initDoubleBuffer, flushBuffer, deskDrawWindow, deskFullRedraw)\<close>

text \<open>
  \<open>deskBuffer\<close> points to a canvas object or is null; the canvas holds a pixel buffer pointer
  that is null when \<open>malloc\<close> failed.  The model keeps, in place of the pixels, the draw calls
  that reached the buffer since it was zero-filled; \<open>CopyImage\<close> stands for the full-screen
  \<open>memcpy\<close> of \<open>bmpViewBuffer\<close>.  \<open>gfx\<close> is null or points to the canvas or to the display
  \<open>tft\<close>.  What reaches the display is logged: state restores, bulk bitmap transfers and direct
  draw calls.  The last argument of a draw call is its 16-bit colour.  Dereferencing a null
  pointer and indexing an array outside its bounds are faults, returned as values.
\<close>

datatype draw_cmd =
    FillRect int int int int int
  | DrawRect int int int int int
  | DrawLine int int int int int
  | DrawPixel int int int
  | DrawText int int string
  | CopyImage

type_synonym canvas = "draw_cmd list option"

datatype gfx_target = GfxNull | GfxCanvas | GfxTft

datatype tft_op = TftRestore | TftBitmap "draw_cmd list" | TftDraw draw_cmd

datatype fault = NullPointer | OutOfBounds

record fb_state =
  deskBuffer :: "canvas option"
  gfx :: gfx_target
  bufferReady :: bool
  tftLog :: "tft_op list"

definition fbInit :: fb_state where
  "fbInit = \<lparr> deskBuffer = None, gfx = GfxNull, bufferReady = False, tftLog = [] \<rparr>"

text \<open>\<open>deskBuffer && deskBuffer->getBuffer()\<close>\<close>

definition bufferValid :: "fb_state \<Rightarrow> bool" where
  "bufferValid s \<longleftrightarrow> (case deskBuffer s of None \<Rightarrow> False | Some None \<Rightarrow> False | Some (Some px) \<Rightarrow> True)"

text \<open>The outcome of \<open>new PSRAMCanvas16(...)\<close>: no object, an object whose pixel buffer could not
  be allocated, or an object with a zero-filled buffer.\<close>

datatype alloc_result = NewFails | BufferFails | AllocOk

definition newCanvas :: "alloc_result \<Rightarrow> canvas option" where
  "newCanvas r = (case r of NewFails \<Rightarrow> None | BufferFails \<Rightarrow> Some None | AllocOk \<Rightarrow> Some (Some []))"

definition initDoubleBuffer :: "alloc_result \<Rightarrow> fb_state \<Rightarrow> bool \<times> fb_state" where
  "initDoubleBuffer r s =
     (if bufferReady s \<and> bufferValid s then (True, s)
      else
        (let s1 = (if deskBuffer s = None then s\<lparr> deskBuffer := newCanvas r \<rparr> else s) in
         if bufferValid s1 then (True, s1\<lparr> bufferReady := True \<rparr>)
         else (False, s1\<lparr> bufferReady := False, deskBuffer := None \<rparr>)))"

text \<open>\<open>flushBuffer\<close>: nothing without a ready, valid buffer; otherwise the display state is
  restored and the whole buffer is sent in one transfer.\<close>

definition flushBuffer :: "fb_state \<Rightarrow> fb_state" where
  "flushBuffer s =
     (if \<not> bufferReady s \<or> \<not> bufferValid s then s
      else (case deskBuffer s of
              Some (Some px) \<Rightarrow> s\<lparr> tftLog := tftLog s @ [TftRestore, TftBitmap px] \<rparr>
            | _ \<Rightarrow> s))"

text \<open>A draw call through \<open>gfx\<close>.  A null \<open>gfx\<close>, or one left pointing to a deleted canvas, is
  a fault; the canvas drops a call when its pixel buffer is null.\<close>

definition drawVia :: "draw_cmd \<Rightarrow> fb_state \<Rightarrow> fault + fb_state" where
  "drawVia c s =
     (case gfx s of
        GfxNull \<Rightarrow> Inl NullPointer
      | GfxTft \<Rightarrow> Inr (s\<lparr> tftLog := tftLog s @ [TftDraw c] \<rparr>)
      | GfxCanvas \<Rightarrow>
          (case deskBuffer s of
             None \<Rightarrow> Inl NullPointer
           | Some None \<Rightarrow> Inr s
           | Some (Some px) \<Rightarrow> Inr (s\<lparr> deskBuffer := Some (Some (px @ [c])) \<rparr>)))"

fun drawAll :: "draw_cmd list \<Rightarrow> fb_state \<Rightarrow> fault + fb_state" where
  "drawAll [] s = Inr s"
| "drawAll (c # cs) s = (case drawVia c s of Inl e \<Rightarrow> Inl e | Inr s' \<Rightarrow> drawAll cs s')"

subsection \<open>deskDrawWindow\<close>

text \<open>
  The image viewer keeps, besides \<open>viewingBMP\<close>, \<open>bmpViewWidth\<close>, \<open>bmpViewHeight\<close> and
  \<open>imgViewerOverlayVisible\<close> of the registry state, a pixel buffer of its own
  (\<open>bmpViewBuffer\<close>, allocated by \<open>loadBMPFile\<close> and never freed; modelled by whether it is
  non-null) and the time and cursor position at which the overlay was last shown.
\<close>

record viewer_state =
  bmpViewBuffer :: bool
  imgViewerOverlayTime :: int
  imgViewerLastCursorX :: int
  imgViewerLastCursorY :: int

text \<open>The initialisers: \<open>bmpViewBuffer = nullptr\<close>, \<open>imgViewerOverlayTime = 0\<close>,
  \<open>imgViewerLastCursorX = -1\<close>, \<open>imgViewerLastCursorY = -1\<close>.\<close>

definition viewerInit :: viewer_state where
  "viewerInit = \<lparr> bmpViewBuffer = False, imgViewerOverlayTime = 0,
     imgViewerLastCursorX = - 1, imgViewerLastCursorY = - 1 \<rparr>"

type_synonym shell_state = "desk_state \<times> viewer_state \<times> fb_state"

text \<open>
  In \<open>deskDrawWindow\<close>, \<open>deskDrawTaskbar\<close>, \<open>deskDrawStartMenu\<close>, \<open>drawMousePointer\<close> and the body
  of \<open>deskFullRedraw\<close> every drawing statement is a call through \<open>gfx\<close>, with one exception: the
  image viewer (case 12 of the content switch) copies the image into the frame buffer
  through \<open>deskBuffer\<close>.  The calls through \<open>gfx\<close> whose arguments depend on state that is not
  modelled here (the desktop background, logo and disk icon; the frame, title bar, buttons
  and content background of a window; the content of the application types other than 12;
  the taskbar, start menu, popup and pointer) are parameters, each a list of calls.
\<close>

record painter =
  backdropCalls :: "draw_cmd list"
  frameCalls :: "DeskWindow \<Rightarrow> bool \<Rightarrow> draw_cmd list"
  contentCalls :: "DeskWindow \<Rightarrow> draw_cmd list"
  topCalls :: "draw_cmd list"

text \<open>The content rectangle \<open>cx, cy, cw, ch\<close> of a window.\<close>

definition contentRect :: "DeskWindow \<Rightarrow> int \<times> int \<times> int \<times> int" where
  "contentRect w =
     (if win_fullscreen w then (0, 0, SCREEN_WIDTH, SCREEN_HEIGHT)
      else (case (if win_maximized w then (0, 0, SCREEN_WIDTH, SCREEN_HEIGHT)
                  else (win_x w, win_y w, win_w w, win_h w)) of
              (x, y, ww, wh) \<Rightarrow> (x + 3, y + DESK_TITLEBAR_H, ww - 6, wh - DESK_TITLEBAR_H - 3)))"

text \<open>\<open>ch / 2\<close> in C rounds towards zero.\<close>

definition half :: "int \<Rightarrow> int" where
  "half n = (if 0 \<le> n then n div 2 else - ((- n) div 2))"

text \<open>The close button drawn over the image: \<open>fillRect\<close>, \<open>drawRect\<close> and the two lines of
  the cross (\<open>0x4208 = 16904\<close>, \<open>0xFFFF = 65535\<close>).\<close>

definition overlayButton :: "int \<Rightarrow> int \<Rightarrow> int \<Rightarrow> draw_cmd list" where
  "overlayButton cx cy cw =
     (let btnSize = 16; btnX = cx + cw - btnSize - 4; btnY = cy + 4
      in [FillRect btnX btnY btnSize btnSize 16904,
          DrawRect btnX btnY btnSize btnSize 65535,
          DrawLine (btnX + 4) (btnY + 4) (btnX + btnSize - 5) (btnY + btnSize - 5) 65535,
          DrawLine (btnX + btnSize - 5) (btnY + 4) (btnX + 4) (btnY + btnSize - 5) 65535])"

text \<open>
  Case 12 of the content switch, at time \<open>now\<close> with the cursor at \<open>(mx, my)\<close>.  With an image
  loaded the code runs
  \<open>uint16_t* destBuf = deskBuffer->getBuffer(); memcpy(destBuf, bmpViewBuffer, ...);\<close>
  with no test of \<open>deskBuffer\<close>, \<open>bufferReady\<close> or \<open>destBuf\<close>: a null \<open>deskBuffer\<close> or a null pixel
  buffer is a null pointer dereference.  Otherwise the copy replaces the whole buffer; then
  a moved cursor shows the overlay, 5 seconds without movement hide it, and the visible
  overlay is drawn through \<open>gfx\<close>.
\<close>

definition drawImageViewer :: "int \<Rightarrow> int \<Rightarrow> int \<Rightarrow> DeskWindow \<Rightarrow> shell_state \<Rightarrow> fault + shell_state" where
  "drawImageViewer now mx my w st =
     (case st of (d, v, s) \<Rightarrow>
      case contentRect w of (cx, cy, cw, ch) \<Rightarrow>
        if \<not> viewingBMP d
        then (case drawVia (DrawText (cx + 4) (cy + half ch - 4) ''No image loaded'') s of
                Inl e \<Rightarrow> Inl e | Inr s1 \<Rightarrow> Inr (d, v, s1))
        else if bmpViewBuffer v \<and> 0 < bmpViewWidth d \<and> 0 < bmpViewHeight d
        then (case deskBuffer s of
                None \<Rightarrow> Inl NullPointer
              | Some None \<Rightarrow> Inl NullPointer
              | Some (Some px) \<Rightarrow>
                  (let s1 = s\<lparr> deskBuffer := Some (Some [CopyImage]) \<rparr>;
                       moved = (mx \<noteq> imgViewerLastCursorX v \<or> my \<noteq> imgViewerLastCursorY v);
                       d1 = (if moved then d\<lparr> imgViewerOverlayVisible := True \<rparr> else d);
                       v1 = (if moved
                             then v\<lparr> imgViewerOverlayTime := now, imgViewerLastCursorX := mx,
                                     imgViewerLastCursorY := my \<rparr>
                             else v);
                       d2 = (if imgViewerOverlayVisible d1
                                \<and> msSince now (imgViewerOverlayTime v1) > 5000
                             then d1\<lparr> imgViewerOverlayVisible := False \<rparr> else d1)
                   in if imgViewerOverlayVisible d2
                      then (case drawAll (overlayButton cx cy cw) s1 of
                              Inl e \<Rightarrow> Inl e | Inr s2 \<Rightarrow> Inr (d2, v1, s2))
                      else Inr (d2, v1, s1)))
        else (case drawVia (DrawText (cx + 4) (cy + half ch - 4) ''Load failed'') s of
                Inl e \<Rightarrow> Inl e | Inr s1 \<Rightarrow> Inr (d, v, s1)))"

text \<open>\<open>deskDrawWindow(winIdx)\<close>: nothing for a negative index or a closed slot; otherwise the
  frame (the flag says whether the window is the focused one), then the content.\<close>

definition deskDrawWindow ::
  "painter \<Rightarrow> int \<Rightarrow> int \<Rightarrow> int \<Rightarrow> int \<Rightarrow> shell_state \<Rightarrow> fault + shell_state" where
  "deskDrawWindow P now mx my winIdx st =
     (case st of (d, v, s) \<Rightarrow>
        if winIdx < 0 then Inr st
        else if \<not> nat winIdx < length (deskWins d) then Inl OutOfBounds
        else
          (let w = deskWins d ! nat winIdx in
           if \<not> win_open w then Inr st
           else (case drawAll (frameCalls P w (winIdx = activeWin d)) s of
                   Inl e \<Rightarrow> Inl e
                 | Inr s1 \<Rightarrow>
                     if win_appType w = 12 then drawImageViewer now mx my w (d, v, s1)
                     else (case drawAll (contentCalls P w) s1 of
                             Inl e \<Rightarrow> Inl e | Inr s2 \<Rightarrow> Inr (d, v, s2)))))"

subsection \<open>deskFullRedraw\<close>

text \<open>The loop \<open>for (i = deskWinCount - 1; i >= 0; i--) deskDrawWindow(deskWinOrder[i]);\<close> with
  \<open>n\<close> windows still to draw: back to front.\<close>

fun drawWindows ::
  "painter \<Rightarrow> int \<Rightarrow> int \<Rightarrow> int \<Rightarrow> nat \<Rightarrow> shell_state \<Rightarrow> fault + shell_state" where
  "drawWindows P now mx my 0 st = Inr st"
| "drawWindows P now mx my (Suc i) st =
     (if i < length (deskWinOrder (fst st))
      then (case deskDrawWindow P now mx my (deskWinOrder (fst st) ! i) st of
              Inl e \<Rightarrow> Inl e
            | Inr st1 \<Rightarrow> drawWindows P now mx my i st1)
      else Inl OutOfBounds)"

text \<open>\<open>deskFullRedraw\<close>: allocate lazily (with outcome \<open>r\<close> if it comes to an allocation), give
  \<open>gfx\<close> a target if it has none, draw the backdrop, the windows, the top layer, and flush
  once.  \<open>updateTaskbarState\<close>, called before the drawing, reads the registry and the cursor and
  sets \<open>taskbarHidden\<close> and \<open>startMenuOpen\<close>, on which only arguments of the calls depend.\<close>

definition deskFullRedraw ::
  "alloc_result \<Rightarrow> painter \<Rightarrow> int \<Rightarrow> int \<Rightarrow> int \<Rightarrow> shell_state \<Rightarrow> fault + shell_state" where
  "deskFullRedraw r P now mx my st =
     (case st of (d, v, s) \<Rightarrow>
        (let s1 = (if \<not> bufferReady s then snd (initDoubleBuffer r s) else s);
             s2 = (if gfx s1 = GfxNull
                   then s1\<lparr> gfx := (if bufferReady s1 then GfxCanvas else GfxTft) \<rparr> else s1)
         in case drawAll (backdropCalls P) s2 of
              Inl e \<Rightarrow> Inl e
            | Inr s3 \<Rightarrow>
                (case drawWindows P now mx my (deskWinCount d) (d, v, s3) of
                   Inl e \<Rightarrow> Inl e
                 | Inr (d4, v4, s4) \<Rightarrow>
                     (case drawAll (topCalls P) s4 of
                        Inl e \<Rightarrow> Inl e
                      | Inr s5 \<Rightarrow> Inr (d4, v4, flushBuffer s5)))))"

text \<open>Entering desktop mode: \<open>initDoubleBuffer(); gfx = bufferReady ? deskBuffer : &tft;\<close>\<close>

definition enterDesktop :: "alloc_result \<Rightarrow> fb_state \<Rightarrow> fb_state" where
  "enterDesktop r s =
     (let s1 = snd (initDoubleBuffer r s)
      in s1\<lparr> gfx := (if bufferReady s1 then GfxCanvas else GfxTft) \<rparr>)"

text \<open>The Files window opening a BMP file whose load succeeded: \<open>loadBMPFile\<close> has the image in
  \<open>bmpViewBuffer\<close> at full-screen size, then
  \<open>viewingBMP = true; imgViewerOverlayVisible = true; imgViewerOverlayTime = millis();
  imgViewerLastCursorX = mouseX; imgViewerLastCursorY = mouseY; deskOpenWindow(12, "Image");\<close>\<close>

definition openImageFile ::
  "int \<Rightarrow> int \<Rightarrow> int \<Rightarrow> desk_state \<times> viewer_state \<Rightarrow> (desk_state \<times> viewer_state) option" where
  "openImageFile now mx my dv =
     (case dv of (d, v) \<Rightarrow>
        map_option
          (\<lambda>d1. (d1, v\<lparr> bmpViewBuffer := True, imgViewerOverlayTime := now,
                       imgViewerLastCursorX := mx, imgViewerLastCursorY := my \<rparr>))
          (deskOpenWindow 12 ''Image''
             (d\<lparr> bmpViewWidth := SCREEN_WIDTH, bmpViewHeight := SCREEN_HEIGHT,
                 viewingBMP := True, imgViewerOverlayVisible := True \<rparr>)))"

text \<open>What the buffer code maintains: the ready flag is set exactly when a canvas with a
  pixel buffer exists, a failed allocation leaves no canvas behind, and \<open>gfx\<close> points to the
  canvas only when it is ready.\<close>

definition fbInv :: "fb_state \<Rightarrow> bool" where
  "fbInv s \<longleftrightarrow> (if bufferReady s then bufferValid s
                else deskBuffer s = None \<and> gfx s \<noteq> GfxCanvas)"

text \<open>Direct draw calls appended to the display log.\<close>

definition directDraws :: "fb_state \<Rightarrow> draw_cmd list \<Rightarrow> fb_state" where
  "directDraws s cs = s\<lparr> tftLog := tftLog s @ map TftDraw cs \<rparr>"

text \<open>The calls through \<open>gfx\<close> that \<open>deskDrawWindow\<close> makes for a slot, and \<open>deskFullRedraw\<close> for
  the whole scene, when no image is copied: the image viewer then prints one of its two
  messages.\<close>

definition windowCalls :: "painter \<Rightarrow> desk_state \<Rightarrow> int \<Rightarrow> draw_cmd list" where
  "windowCalls P d winIdx =
     (let w = deskWins d ! nat winIdx in
      if winIdx < 0 \<or> \<not> win_open w then []
      else frameCalls P w (winIdx = activeWin d)
           @ (if win_appType w = 12
              then (case contentRect w of
                      (cx, cy, cw, ch) \<Rightarrow>
                        [DrawText (cx + 4) (cy + half ch - 4)
                           (if viewingBMP d then ''Load failed'' else ''No image loaded'')])
              else contentCalls P w))"

definition sceneCalls :: "painter \<Rightarrow> desk_state \<Rightarrow> draw_cmd list" where
  "sceneCalls P d =
     backdropCalls P @ concat (map (windowCalls P d) (rev (zorder d))) @ topCalls P"

text \<open>An image is loaded, and a window of the image viewer is in the z-order.\<close>

definition imageLoaded :: "desk_state \<Rightarrow> viewer_state \<Rightarrow> bool" where
  "imageLoaded d v \<longleftrightarrow> viewingBMP d \<and> bmpViewBuffer v \<and> 0 < bmpViewWidth d \<and> 0 < bmpViewHeight d"

definition imageWindowOpen :: "desk_state \<Rightarrow> bool" where
  "imageWindowOpen d \<longleftrightarrow> (\<exists>i \<in> set (zorder d). win_appType (deskWins d ! nat i) = 12)"

text \<open>A sample of calls for the parameters.\<close>

definition samplePainter :: painter where
  "samplePainter =
     \<lparr> backdropCalls = [FillRect 0 0 240 115 1040, DrawPixel 200 100 65535, DrawText 6 26 ''Disk''],
       frameCalls = (\<lambda>w active. if win_fullscreen w then [FillRect 0 0 240 135 0]
                      else [DrawRect (win_x w) (win_y w) (win_w w) (win_h w) 0,
                            DrawText (win_x w + 4) (win_y w + 5) (win_title w)]),
       contentCalls = (\<lambda>w. [DrawText (win_x w + 5) (win_y w + 20) ''..'']),
       topCalls = [FillRect 0 115 240 20 50712, DrawLine 120 67 120 77 0] \<rparr>"

text \<open>The desktop entered with \<open>malloc\<close> failing for the pixel buffer, the Files window opened,
  and an image opened from it at time 5000 with the cursor at \<open>(60, 40)\<close>.\<close>

definition fbFailed :: fb_state where
  "fbFailed = enterDesktop BufferFails fbInit"

definition imageShell :: "desk_state \<times> viewer_state" where
  "imageShell = (case deskOpenWindow 6 ''Files'' initDesk of
                   None \<Rightarrow> (initDesk, viewerInit)
                 | Some d \<Rightarrow> (case openImageFile 5000 60 40 (d, viewerInit) of
                                None \<Rightarrow> (initDesk, viewerInit)
                              | Some dv \<Rightarrow> dv))"

section \<open>Verification of the window registry\<close>

lemma shiftBack_eq:
  "n < length a \<Longrightarrow> shiftBack n a = Some (a ! 0 # take n a @ drop (Suc n) a)"
proof (induction n arbitrary: a)
  case 0
  then show ?case by (cases a) auto
next
  case (Suc n)
  let ?b = "a[Suc n := a ! n]"
  have len: "n < length ?b" using Suc.prems by simp
  have "shiftBack (Suc n) a = shiftBack n ?b" using Suc.prems by simp
  also have "\<dots> = Some (?b ! 0 # take n ?b @ drop (Suc n) ?b)" by (rule Suc.IH [OF len])
  also have "?b ! 0 = a ! 0" by simp
  also have "take n ?b = take n a" by simp
  also have "drop (Suc n) ?b = a ! n # drop (Suc (Suc n)) a"
    using Suc.prems by (simp add: drop_update_swap Cons_nth_drop_Suc [symmetric] del: drop_Suc_Cons) 
  finally show ?case using Suc.prems by (simp add: take_Suc_conv_app_nth)
qed

lemma shiftBack_None: "\<not> n < length a \<Longrightarrow> 0 < n \<Longrightarrow> shiftBack n a = None"
  by (cases n) auto

lemma findFreeSlot_none:
  "findFreeSlot i ws = - 1 \<longleftrightarrow> (\<forall>j. i \<le> j \<and> j < MAX_DESK_WINDOWS \<longrightarrow> win_open (ws ! j))"
proof (induction i ws rule: findFreeSlot.induct)
  case (1 i ws)
  show ?case
  proof (cases "i < MAX_DESK_WINDOWS")
    case False
    then show ?thesis by (auto simp add: findFreeSlot.simps [of i ws])
  next
    case True
    show ?thesis
    proof (cases "win_open (ws ! i)")
      case False
      with True show ?thesis by (auto simp: findFreeSlot.simps [of i ws])
    next
      case isopen: True
      have "findFreeSlot i ws = findFreeSlot (Suc i) ws"
        using True isopen by (simp add: findFreeSlot.simps [of i ws])
      moreover have "(\<forall>j. i \<le> j \<and> j < MAX_DESK_WINDOWS \<longrightarrow> win_open (ws ! j))
          \<longleftrightarrow> (\<forall>j. Suc i \<le> j \<and> j < MAX_DESK_WINDOWS \<longrightarrow> win_open (ws ! j))"
        using isopen by (metis Suc_leI le_neq_implies_less Suc_leD)
      ultimately show ?thesis using "1.IH" True isopen by simp
    qed
  qed
qed

lemma findFreeSlot_some:
  "findFreeSlot i ws \<noteq> - 1 \<Longrightarrow>
     \<exists>k. findFreeSlot i ws = int k \<and> i \<le> k \<and> k < MAX_DESK_WINDOWS \<and> \<not> win_open (ws ! k)
        \<and> (\<forall>j. i \<le> j \<and> j < k \<longrightarrow> win_open (ws ! j))"
proof (induction i ws rule: findFreeSlot.induct)
  case (1 i ws)
  show ?case
  proof (cases "i < MAX_DESK_WINDOWS")
    case False
    with "1.prems" show ?thesis by (simp add: findFreeSlot.simps [of i ws])
  next
    case True
    show ?thesis
    proof (cases "win_open (ws ! i)")
      case False
      with True show ?thesis by (auto simp: findFreeSlot.simps [of i ws])
    next
      case isopen: True
      have eq: "findFreeSlot i ws = findFreeSlot (Suc i) ws"
        using True isopen by (simp add: findFreeSlot.simps [of i ws])
      with "1.prems" "1.IH" True isopen obtain k where
        k: "findFreeSlot (Suc i) ws = int k" "Suc i \<le> k" "k < MAX_DESK_WINDOWS"
           "\<not> win_open (ws ! k)" "\<forall>j. Suc i \<le> j \<and> j < k \<longrightarrow> win_open (ws ! j)"
        by auto
      have "\<forall>j. i \<le> j \<and> j < k \<longrightarrow> win_open (ws ! j)"
        using k(5) isopen by (metis Suc_leI le_neq_implies_less)
      with k eq show ?thesis by auto
    qed
  qed
qed

lemma findOrderPos_found:
  "n \<le> length a \<Longrightarrow> i \<le> k \<Longrightarrow> k < n \<Longrightarrow> a ! k = v \<Longrightarrow> (\<forall>j. i \<le> j \<and> j < k \<longrightarrow> a ! j \<noteq> v)
     \<Longrightarrow> findOrderPos i n a v = Some (int k)"
proof (induction i n a v rule: findOrderPos.induct)
  case (1 i n a v)
  show ?case
  proof (cases "i = k")
    case True
    with "1.prems" show ?thesis by (subst findOrderPos.simps) simp
  next
    case False
    with "1.prems" have ik: "i < k" "a ! i \<noteq> v" "i < n" "i < length a" by auto
    then have "findOrderPos i n a v = findOrderPos (Suc i) n a v"
      by (simp add: findOrderPos.simps [of i n a v])
    moreover have "findOrderPos (Suc i) n a v = Some (int k)"
      using "1.IH" ik "1.prems" by auto
    ultimately show ?thesis by simp
  qed
qed

lemma findOrderPos_absent:
  "n \<le> length a \<Longrightarrow> (\<forall>j. i \<le> j \<and> j < n \<longrightarrow> a ! j \<noteq> v) \<Longrightarrow> findOrderPos i n a v = Some (- 1)"
proof (induction i n a v rule: findOrderPos.induct)
  case (1 i n a v)
  show ?case
  proof (cases "i < n")
    case False
    then show ?thesis by (simp add: findOrderPos.simps [of i n a v])
  next
    case True
    with "1.prems" have "a ! i \<noteq> v" "i < length a" by auto
    with True have "findOrderPos i n a v = findOrderPos (Suc i) n a v"
      by (simp add: findOrderPos.simps [of i n a v])
    moreover have "findOrderPos (Suc i) n a v = Some (- 1)"
      using "1.IH" True \<open>a ! i \<noteq> v\<close> \<open>i < length a\<close> "1.prems" by auto
    ultimately show ?thesis by simp
  qed
qed

lemma shiftFront_eq:
  "i < n \<Longrightarrow> n \<le> length a \<Longrightarrow>
     shiftFront i n a = Some (take i a @ drop (Suc i) (take n a) @ drop (n - 1) a)"
proof (induction i n a rule: shiftFront.induct)
  case (1 i n a)
  show ?case
  proof (cases "Suc i < n")
    case False
    with "1.prems" have n: "n = Suc i" by simp
    then have "shiftFront i n a = Some a" by (subst shiftFront.simps) simp
    moreover have "take i a @ drop (Suc i) (take n a) @ drop (n - 1) a = a"
      using n by simp
    ultimately show ?thesis by simp
  next
    case True
    let ?b = "a[i := a ! Suc i]"
    have step: "shiftFront i n a = shiftFront (Suc i) n ?b"
      using True "1.prems" by (simp add: shiftFront.simps [of i n a])
    have "shiftFront (Suc i) n ?b
        = Some (take (Suc i) ?b @ drop (Suc (Suc i)) (take n ?b) @ drop (n - 1) ?b)"
      using "1.IH" True "1.prems" by simp
    moreover have "take (Suc i) ?b = take i a @ [a ! Suc i]"
      using True "1.prems" by (simp add: take_Suc_conv_app_nth)
    moreover have "drop (Suc (Suc i)) (take n ?b) = drop (Suc (Suc i)) (take n a)"
      by (simp add: drop_take)
    moreover have "drop (n - 1) ?b = drop (n - 1) a"
      using True by simp
    moreover have "a ! Suc i # drop (Suc (Suc i)) (take n a) = drop (Suc i) (take n a)"
      using True "1.prems" by (metis Cons_nth_drop_Suc length_take min.absorb2 nth_take)
    ultimately show ?thesis using step by (simp del: drop_Suc_Cons)
  qed
qed

lemma deskInv_init: "deskInv initDesk"
  by (simp add: deskInv_def initDesk_def zorder_def openSlots_def emptyWindow_def)

lemma length_zorder: "deskWinCount s \<le> length (deskWinOrder s) \<Longrightarrow> length (zorder s) = deskWinCount s"
  by (simp add: zorder_def)

lemma deskInv_room:
  assumes inv: "deskInv s" and k: "k < MAX_DESK_WINDOWS" "\<not> win_open (deskWins s ! k)"
  shows "deskWinCount s < MAX_DESK_WINDOWS"
proof -
  have sub: "openSlots s \<subseteq> int ` ({..<MAX_DESK_WINDOWS} - {k})"
    using inv k by (auto simp: openSlots_def deskInv_def)
  have "card (openSlots s) \<le> card (int ` ({..<MAX_DESK_WINDOWS} - {k}))"
    by (rule card_mono [OF _ sub]) simp
  also have "\<dots> = card ({..<MAX_DESK_WINDOWS} - {k})"
    by (simp add: card_image)
  also have "\<dots> = MAX_DESK_WINDOWS - 1" using k by simp
  finally have "card (set (zorder s)) \<le> MAX_DESK_WINDOWS - 1" using inv by (simp add: deskInv_def)
  moreover have "card (set (zorder s)) = length (zorder s)"
    using inv by (intro distinct_card) (simp add: deskInv_def)
  moreover have "length (zorder s) = deskWinCount s"
    using inv by (simp add: deskInv_def length_zorder)
  ultimately show ?thesis using k by simp
qed

lemma deskOpenWindow_full:
  "findFreeSlot 0 (deskWins s) = - 1 \<Longrightarrow> deskOpenWindow appType title s = Some s"
  by (simp add: deskOpenWindow_def)

lemma deskOpenWindow_free:
  assumes slot: "findFreeSlot 0 (deskWins s) = int k"
    and room: "deskWinCount s < length (deskWinOrder s)"
  shows "deskOpenWindow appType title s =
     Some (s\<lparr> deskWins := (deskWins s)[k := newWindow k appType title],
              deskWinOrder := int k # take (deskWinCount s) (deskWinOrder s)
                                @ drop (Suc (deskWinCount s)) (deskWinOrder s),
              deskWinCount := Suc (deskWinCount s), activeWin := int k \<rparr>)"
  using slot room by (simp add: deskOpenWindow_def shiftBack_eq Let_def)

lemma openSlots_open:
  assumes "k < length (deskWins s)"
  shows "openSlots (s\<lparr> deskWins := (deskWins s)[k := newWindow k appType title],
              deskWinOrder := a, deskWinCount := n, activeWin := v \<rparr>) = insert (int k) (openSlots s)"
proof -
  have o: "win_open (newWindow k appType title)"
    by (simp add: newWindow_def split: prod.splits)
  show ?thesis using assms o
    by (auto simp: openSlots_def nth_list_update)
qed

lemma deskInv_open:
  assumes inv: "deskInv s"
  shows "\<exists>s'. deskOpenWindow appType title s = Some s' \<and> deskInv s'"
proof (cases "findFreeSlot 0 (deskWins s) = - 1")
  case True
  then show ?thesis using inv by (simp add: deskOpenWindow_full)
next
  case False
  from findFreeSlot_some [OF False] obtain k where
    k: "findFreeSlot 0 (deskWins s) = int k" "k < MAX_DESK_WINDOWS" "\<not> win_open (deskWins s ! k)"
    by auto
  have room: "deskWinCount s < MAX_DESK_WINDOWS" by (rule deskInv_room [OF inv k(2,3)])
  have len: "length (deskWins s) = MAX_DESK_WINDOWS" "length (deskWinOrder s) = MAX_DESK_WINDOWS"
    using inv by (simp_all add: deskInv_def)
  let ?s' = "s\<lparr> deskWins := (deskWins s)[k := newWindow k appType title],
              deskWinOrder := int k # take (deskWinCount s) (deskWinOrder s)
                                @ drop (Suc (deskWinCount s)) (deskWinOrder s),
              deskWinCount := Suc (deskWinCount s), activeWin := int k \<rparr>"
  have eq: "deskOpenWindow appType title s = Some ?s'"
    using k(1) room len by (simp add: deskOpenWindow_free)
  have z: "zorder ?s' = int k # zorder s"
    using room len by (simp add: zorder_def)
  have os: "openSlots ?s' = insert (int k) (openSlots s)"
    using k(2) len by (simp add: openSlots_open)
  have notin: "int k \<notin> openSlots s"
    using k(3) by (auto simp: openSlots_def)
  have "deskInv ?s'"
    unfolding deskInv_def z os
    using inv room len notin by (simp add: deskInv_def)
  with eq show ?thesis by blast
qed

lemma take_drop_remove1:
  "k < length z \<Longrightarrow> (\<forall>j<k. z ! j \<noteq> z ! k) \<Longrightarrow> take k z @ drop (Suc k) z = remove1 (z ! k) z"
proof (induction z arbitrary: k)
  case Nil
  then show ?case by simp
next
  case (Cons x z)
  show ?case
  proof (cases k)
    case 0
    then show ?thesis by simp
  next
    case (Suc m)
    with Cons.prems have m: "m < length z" "\<forall>j<m. z ! j \<noteq> z ! m" and x: "x \<noteq> z ! m"
      by auto
    from Cons.IH [OF m] x Suc show ?thesis by simp
  qed
qed

lemma take_append_exact: "length xs = m \<Longrightarrow> take m (xs @ ys) = xs"
  by simp

lemma closeSideEffects_fields [simp]:
  "deskWins (closeSideEffects w s) = deskWins s"
  "deskWinOrder (closeSideEffects w s) = deskWinOrder s"
  "deskWinCount (closeSideEffects w s) = deskWinCount s"
  "activeWin (closeSideEffects w s) = activeWin s"
  by (simp_all add: closeSideEffects_def Let_def)

lemma deskCloseWindow_noop:
  "winIdx < 0 \<or> (nat winIdx < length (deskWins s) \<and> \<not> win_open (deskWins s ! nat winIdx))
     \<Longrightarrow> deskCloseWindow winIdx s = Some s"
  by (auto simp: deskCloseWindow_def)

lemma openSlots_close:
  assumes "k < length ws"
  shows "{int i | i. i < length (ws[k := (ws ! k)\<lparr> win_open := False \<rparr>])
            \<and> win_open (ws[k := (ws ! k)\<lparr> win_open := False \<rparr>] ! i)}
         = {int i | i. i < length ws \<and> win_open (ws ! i)} - {int k}"
  using assms by (auto simp: nth_list_update)

lemma deskCloseWindow_open:
  assumes inv: "deskInv s" and r: "0 \<le> winIdx" "nat winIdx < MAX_DESK_WINDOWS"
    and isopen: "win_open (deskWins s ! nat winIdx)"
  shows "\<exists>s'. deskCloseWindow winIdx s = Some s' \<and> deskInv s'
           \<and> zorder s' = remove1 winIdx (zorder s)
           \<and> openSlots s' = openSlots s - {winIdx}"
proof -
  have len: "length (deskWins s) = MAX_DESK_WINDOWS" "length (deskWinOrder s) = MAX_DESK_WINDOWS"
    and cnt: "deskWinCount s \<le> MAX_DESK_WINDOWS" and dist: "distinct (zorder s)"
    and sets: "set (zorder s) = openSlots s"
    using inv by (simp_all add: deskInv_def)
  let ?n = "deskWinCount s" and ?a = "deskWinOrder s"
  have lz: "length (zorder s) = ?n" using cnt len by (simp add: zorder_def)
  have "winIdx \<in> openSlots s"
    using r isopen len by (auto simp: openSlots_def intro!: exI [of _ "nat winIdx"])
  then have "winIdx \<in> set (zorder s)" using sets by simp
  then obtain k where k: "k < ?n" "zorder s ! k = winIdx"
    using lz by (auto simp: in_set_conv_nth)
  have ak: "?a ! k = winIdx" using k by (simp add: zorder_def)
  have first: "\<forall>j<k. zorder s ! j \<noteq> zorder s ! k"
    using dist k lz by (auto simp: nth_eq_iff_index_eq)
  then have first': "\<forall>j. 0 \<le> j \<and> j < k \<longrightarrow> ?a ! j \<noteq> winIdx"
    using k by (auto simp: zorder_def)
  have fp: "findOrderPos 0 ?n ?a winIdx = Some (int k)"
    using cnt len k(1) ak first' by (intro findOrderPos_found) auto
  let ?a' = "take k ?a @ drop (Suc k) (take ?n ?a) @ drop (?n - 1) ?a"
  have sf: "shiftFront k ?n ?a = Some ?a'"
    using k(1) cnt len by (intro shiftFront_eq) auto
  let ?s1 = "closeSideEffects (deskWins s ! nat winIdx) s"
  let ?s2 = "?s1\<lparr> deskWins :=
        (deskWins s)[nat winIdx := (deskWins s ! nat winIdx)\<lparr> win_open := False \<rparr>] \<rparr>"
  let ?s' = "refocus (?s2\<lparr> deskWinOrder := ?a', deskWinCount := ?n - 1 \<rparr>)"
  have eq: "deskCloseWindow winIdx s = Some ?s'"
    using r isopen len fp sf by (simp add: deskCloseWindow_def Let_def)
  have tk: "take k ?a = take k (zorder s)" using k(1) by (simp add: zorder_def min_def)
  have lmid: "length (take k (zorder s) @ drop (Suc k) (zorder s)) = ?n - 1"
    using k(1) lz by simp
  have "zorder ?s' = take (?n - 1) ((take k (zorder s) @ drop (Suc k) (zorder s)) @ drop (?n - 1) ?a)"
    unfolding tk by (simp add: zorder_def refocus_def)
  also have "\<dots> = take k (zorder s) @ drop (Suc k) (zorder s)"
    using lmid by (rule take_append_exact)
  finally have z': "zorder ?s' = take k (zorder s) @ drop (Suc k) (zorder s)" .
  then have z: "zorder ?s' = remove1 winIdx (zorder s)"
    using take_drop_remove1 [of k "zorder s"] k lz first by simp
  have os: "openSlots ?s' = openSlots s - {winIdx}"
    using openSlots_close [of "nat winIdx" "deskWins s"] r len
    by (simp add: openSlots_def refocus_def)
  have la: "length ?a' = MAX_DESK_WINDOWS"
    using k(1) cnt len by (simp add: min_def)
  have "deskInv ?s'"
    unfolding deskInv_def z os
    using len cnt dist sets la by (auto simp: refocus_def)
  with eq z os show ?thesis by blast
qed

lemma deskInv_close:
  assumes inv: "deskInv s" and r: "winIdx < int MAX_DESK_WINDOWS"
  shows "\<exists>s'. deskCloseWindow winIdx s = Some s' \<and> deskInv s'"
proof (cases "winIdx < 0 \<or> \<not> win_open (deskWins s ! nat winIdx)")
  case True
  have "length (deskWins s) = MAX_DESK_WINDOWS" using inv by (simp add: deskInv_def)
  with True r have "deskCloseWindow winIdx s = Some s"
    by (intro deskCloseWindow_noop) auto
  with inv show ?thesis by simp
next
  case False
  with r have "0 \<le> winIdx" "nat winIdx < MAX_DESK_WINDOWS" "win_open (deskWins s ! nat winIdx)"
    by auto
  from deskCloseWindow_open [OF inv this] show ?thesis by blast
qed

lemma deskInv_runCalls:
  "deskInv s \<Longrightarrow> list_all callInPool cs \<Longrightarrow> \<exists>s'. runCalls cs s = Some s' \<and> deskInv s'"
proof (induction cs arbitrary: s)
  case Nil
  then show ?case by simp
next
  case (Cons c cs)
  have "\<exists>s1. applyCall c s = Some s1 \<and> deskInv s1"
  proof (cases c)
    case (OpenCall appType title)
    then show ?thesis using deskInv_open [OF Cons.prems(1)] by simp
  next
    case (CloseCall winIdx)
    then show ?thesis using deskInv_close [OF Cons.prems(1)] Cons.prems(2) by simp
  qed
  then obtain s1 where s1: "applyCall c s = Some s1" "deskInv s1" by blast
  from Cons.IH [OF s1(2)] Cons.prems(2) s1(1) show ?case by simp
qed

text \<open>
  Claim C1.  Starting from the empty desktop, after every sequence of \<open>deskOpenWindow\<close> and
  \<open>deskCloseWindow\<close> calls on slots of the pool the calls return, the entries
  \<open>deskWinOrder[0..deskWinCount-1]\<close> are pairwise different and are exactly the slots whose
  open flag is set, and when \<open>deskWinCount > 0\<close> the front entry is \<open>activeWin\<close>.
\<close>

theorem zorder_permutation_of_open:
  assumes "list_all callInPool cs"
  shows "\<exists>s. runCalls cs initDesk = Some s
           \<and> distinct (zorder s) \<and> set (zorder s) = openSlots s
           \<and> (0 < deskWinCount s \<longrightarrow> deskWinOrder s ! 0 = activeWin s)"
  using deskInv_runCalls [OF deskInv_init assms] by (auto simp: deskInv_def)

lemma scenarioA_run:
  "map_option (\<lambda>s. (zorder s, deskWinCount s, activeWin s)) (runCalls scenarioA initDesk)
     = Some ([1], 1, 1)"
  by code_simp

theorem zorder_permutation_of_open_witness:
  "list_all callInPool scenarioA
   \<and> (\<exists>s. runCalls scenarioA initDesk = Some s \<and> 0 < deskWinCount s \<and> zorder s = [1]
          \<and> distinct (zorder s) \<and> set (zorder s) = openSlots s
          \<and> deskWinOrder s ! 0 = activeWin s \<and> activeWin s = 1)"
proof -
  have h: "list_all callInPool scenarioA"
    by (simp add: scenarioA_def MAX_DESK_WINDOWS_def)
  from zorder_permutation_of_open [OF h] obtain s where
    s: "runCalls scenarioA initDesk = Some s" "distinct (zorder s)"
       "set (zorder s) = openSlots s" "0 < deskWinCount s \<longrightarrow> deskWinOrder s ! 0 = activeWin s"
    by (elim exE conjE)
  from scenarioA_run s(1) have "zorder s = [1]" "deskWinCount s = 1" "activeWin s = 1"
    by simp_all
  with h s show ?thesis by simp
qed

text \<open>
  Claim C10.  \<open>deskCloseWindow\<close> on a negative index, or on a slot whose open flag is
  false, returns with the whole state unchanged: window records, z-order, window count and
  \<open>activeWin\<close>.
\<close>

theorem deskCloseWindow_not_open_noop:
  "winIdx < 0 \<or> (nat winIdx < length (deskWins s) \<and> \<not> win_open (deskWins s ! nat winIdx))
     \<Longrightarrow> deskCloseWindow winIdx s = Some s"
  by (auto simp: deskCloseWindow_def)

theorem deskCloseWindow_not_open_noop_witness:
  "((- 1 :: int) < 0 \<and> deskCloseWindow (- 1) initDesk = Some initDesk)
   \<and> (nat 3 < length (deskWins initDesk) \<and> \<not> win_open (deskWins initDesk ! nat 3)
        \<and> deskCloseWindow 3 initDesk = Some initDesk)"
proof -
  have a: "nat 3 < length (deskWins initDesk) \<and> \<not> win_open (deskWins initDesk ! nat 3)"
    by (simp add: initDesk_def MAX_DESK_WINDOWS_def emptyWindow_def)
  show ?thesis
    using deskCloseWindow_not_open_noop [of "- 1" initDesk]
      deskCloseWindow_not_open_noop [of 3 initDesk] a
    by simp
qed

section \<open>Opening a window and bringing one to the front\<close>

text \<open>
  Claim C2.  \<open>deskOpenWindow(appType, title)\<close> claims the lowest-indexed free slot of the pool,
  gives it the default size and minimum size of the content type and the position derived
  from the slot number, puts the slot id in front of the z-order with the rest shifted back,
  increments the window count and focuses the slot; with no free slot it returns the state
  unchanged.
\<close>

theorem deskOpenWindow_first_free_slot:
  assumes len: "length (deskWins s) = MAX_DESK_WINDOWS" "length (deskWinOrder s) = MAX_DESK_WINDOWS"
    and room: "deskWinCount s < MAX_DESK_WINDOWS \<or> (\<forall>i<MAX_DESK_WINDOWS. win_open (deskWins s ! i))"
  shows "if \<forall>i<MAX_DESK_WINDOWS. win_open (deskWins s ! i)
         then deskOpenWindow appType title s = Some s
         else (\<exists>k s'. k < MAX_DESK_WINDOWS \<and> \<not> win_open (deskWins s ! k)
                 \<and> (\<forall>j<k. win_open (deskWins s ! j))
                 \<and> deskOpenWindow appType title s = Some s'
                 \<and> deskWins s' = (deskWins s)[k := newWindow k appType title]
                 \<and> win_open (deskWins s' ! k)
                 \<and> win_x (deskWins s' ! k) = 20 + (int k * 15) mod 60
                 \<and> win_y (deskWins s' ! k) = 10 + (int k * 12) mod 40
                 \<and> (win_w (deskWins s' ! k), win_h (deskWins s' ! k), win_minW (deskWins s' ! k),
                      win_minH (deskWins s' ! k), win_fullscreen (deskWins s' ! k))
                     = appDefaults appType
                 \<and> zorder s' = int k # zorder s
                 \<and> deskWinCount s' = Suc (deskWinCount s)
                 \<and> activeWin s' = int k)"
proof (cases "\<forall>i<MAX_DESK_WINDOWS. win_open (deskWins s ! i)")
  case True
  then have "findFreeSlot 0 (deskWins s) = - 1" by (simp add: findFreeSlot_none)
  with True show ?thesis by (simp add: deskOpenWindow_full)
next
  case False
  then have "findFreeSlot 0 (deskWins s) \<noteq> - 1" by (simp add: findFreeSlot_none)
  from findFreeSlot_some [OF this] obtain k where
    k: "findFreeSlot 0 (deskWins s) = int k" "k < MAX_DESK_WINDOWS" "\<not> win_open (deskWins s ! k)"
       "\<forall>j<k. win_open (deskWins s ! j)"
    by auto
  let ?s' = "s\<lparr> deskWins := (deskWins s)[k := newWindow k appType title],
              deskWinOrder := int k # take (deskWinCount s) (deskWinOrder s)
                                @ drop (Suc (deskWinCount s)) (deskWinOrder s),
              deskWinCount := Suc (deskWinCount s), activeWin := int k \<rparr>"
  have room': "deskWinCount s < MAX_DESK_WINDOWS" using room False by blast
  have eq: "deskOpenWindow appType title s = Some ?s'"
    using k(1) room' len by (simp add: deskOpenWindow_free)
  have z: "zorder ?s' = int k # zorder s"
    using room' len by (simp add: zorder_def)
  have w: "deskWins ?s' ! k = newWindow k appType title"
    using k(2) len by simp
  have nw: "win_open (newWindow k appType title)"
    "win_x (newWindow k appType title) = 20 + (int k * 15) mod 60"
    "win_y (newWindow k appType title) = 10 + (int k * 12) mod 40"
    "(win_w (newWindow k appType title), win_h (newWindow k appType title),
      win_minW (newWindow k appType title), win_minH (newWindow k appType title),
      win_fullscreen (newWindow k appType title)) = appDefaults appType"
    by (simp_all add: newWindow_def split: prod.splits)
  have "k < MAX_DESK_WINDOWS \<and> \<not> win_open (deskWins s ! k)
                 \<and> (\<forall>j<k. win_open (deskWins s ! j))
                 \<and> deskOpenWindow appType title s = Some ?s'
                 \<and> deskWins ?s' = (deskWins s)[k := newWindow k appType title]
                 \<and> win_open (deskWins ?s' ! k)
                 \<and> win_x (deskWins ?s' ! k) = 20 + (int k * 15) mod 60
                 \<and> win_y (deskWins ?s' ! k) = 10 + (int k * 12) mod 40
                 \<and> (win_w (deskWins ?s' ! k), win_h (deskWins ?s' ! k), win_minW (deskWins ?s' ! k),
                      win_minH (deskWins ?s' ! k), win_fullscreen (deskWins ?s' ! k))
                     = appDefaults appType
                 \<and> zorder ?s' = int k # zorder s
                 \<and> deskWinCount ?s' = Suc (deskWinCount s)
                 \<and> activeWin ?s' = int k"
    unfolding w using k eq z nw by simp
  then have ex: "\<exists>k s'. k < MAX_DESK_WINDOWS \<and> \<not> win_open (deskWins s ! k)
                 \<and> (\<forall>j<k. win_open (deskWins s ! j))
                 \<and> deskOpenWindow appType title s = Some s'
                 \<and> deskWins s' = (deskWins s)[k := newWindow k appType title]
                 \<and> win_open (deskWins s' ! k)
                 \<and> win_x (deskWins s' ! k) = 20 + (int k * 15) mod 60
                 \<and> win_y (deskWins s' ! k) = 10 + (int k * 12) mod 40
                 \<and> (win_w (deskWins s' ! k), win_h (deskWins s' ! k), win_minW (deskWins s' ! k),
                      win_minH (deskWins s' ! k), win_fullscreen (deskWins s' ! k))
                     = appDefaults appType
                 \<and> zorder s' = int k # zorder s
                 \<and> deskWinCount s' = Suc (deskWinCount s)
                 \<and> activeWin s' = int k"
    by (intro exI)
  show ?thesis by (subst if_not_P [OF False]) (rule ex)
qed


lemma all_below_15: "(\<forall>i<MAX_DESK_WINDOWS. P i) \<longleftrightarrow> list_all P [0..<15]"
  by (auto simp: MAX_DESK_WINDOWS_def list_all_iff)

lemma fullDesk_facts:
  "length (deskWins fullDesk) = 15" "length (deskWinOrder fullDesk) = 15"
  "list_all (\<lambda>i. win_open (deskWins fullDesk ! i)) [0..<15]"
  "deskWinCount fullDesk = 15"
  by code_simp+

lemma initDesk_facts:
  "length (deskWins initDesk) = 15" "length (deskWinOrder initDesk) = 15"
  "deskWinCount initDesk = 0" "\<not> win_open (deskWins initDesk ! 0)"
  by code_simp+

theorem deskOpenWindow_first_free_slot_witness:
  "deskOpenWindow 3 ''TODO'' fullDesk = Some fullDesk
   \<and> (\<exists>s'. deskOpenWindow 3 ''TODO'' initDesk = Some s' \<and> zorder s' = [0] \<and> activeWin s' = 0
          \<and> win_w (deskWins s' ! 0) = 85 \<and> win_h (deskWins s' ! 0) = 60
          \<and> win_minW (deskWins s' ! 0) = 70 \<and> win_minH (deskWins s' ! 0) = 50
          \<and> win_x (deskWins s' ! 0) = 20 \<and> win_y (deskWins s' ! 0) = 10)"
proof -
  have full: "\<forall>i<MAX_DESK_WINDOWS. win_open (deskWins fullDesk ! i)"
    using fullDesk_facts(3) by (simp only: all_below_15)
  have lf: "length (deskWins fullDesk) = MAX_DESK_WINDOWS"
      "length (deskWinOrder fullDesk) = MAX_DESK_WINDOWS"
    using fullDesk_facts(1,2) by (simp_all only: MAX_DESK_WINDOWS_def)
  have a: "deskOpenWindow 3 ''TODO'' fullDesk = Some fullDesk"
    using deskOpenWindow_first_free_slot [of fullDesk 3 "''TODO''", OF lf disjI2 [OF full]]
    by (simp only: if_P [OF full])
  have free: "\<not> (\<forall>i<MAX_DESK_WINDOWS. win_open (deskWins initDesk ! i))"
  proof
    assume "\<forall>i<MAX_DESK_WINDOWS. win_open (deskWins initDesk ! i)"
    then have "win_open (deskWins initDesk ! 0)" by (simp add: MAX_DESK_WINDOWS_def)
    with initDesk_facts(4) show False by simp
  qed
  have li: "length (deskWins initDesk) = MAX_DESK_WINDOWS"
      "length (deskWinOrder initDesk) = MAX_DESK_WINDOWS"
    using initDesk_facts(1,2) by (simp_all only: MAX_DESK_WINDOWS_def)
  have ri: "deskWinCount initDesk < MAX_DESK_WINDOWS"
    using initDesk_facts(3) by (simp add: MAX_DESK_WINDOWS_def)
  have z0: "zorder initDesk = []" by (simp add: zorder_def initDesk_def)
  have "\<exists>k s'. k < MAX_DESK_WINDOWS \<and> \<not> win_open (deskWins initDesk ! k)
                 \<and> (\<forall>j<k. win_open (deskWins initDesk ! j))
                 \<and> deskOpenWindow 3 ''TODO'' initDesk = Some s'
                 \<and> deskWins s' = (deskWins initDesk)[k := newWindow k 3 ''TODO'']
                 \<and> win_open (deskWins s' ! k)
                 \<and> win_x (deskWins s' ! k) = 20 + (int k * 15) mod 60
                 \<and> win_y (deskWins s' ! k) = 10 + (int k * 12) mod 40
                 \<and> (win_w (deskWins s' ! k), win_h (deskWins s' ! k), win_minW (deskWins s' ! k),
                      win_minH (deskWins s' ! k), win_fullscreen (deskWins s' ! k))
                     = appDefaults 3
                 \<and> zorder s' = int k # zorder initDesk
                 \<and> deskWinCount s' = Suc (deskWinCount initDesk)
                 \<and> activeWin s' = int k"
    using deskOpenWindow_first_free_slot [of initDesk 3 "''TODO''", OF li disjI1 [OF ri]]
    by (simp only: if_not_P [OF free])
  then obtain k s' where ks: "\<not> win_open (deskWins initDesk ! k)"
      "\<forall>j<k. win_open (deskWins initDesk ! j)"
      "deskOpenWindow 3 ''TODO'' initDesk = Some s'"
      "win_x (deskWins s' ! k) = 20 + (int k * 15) mod 60"
      "win_y (deskWins s' ! k) = 10 + (int k * 12) mod 40"
      "(win_w (deskWins s' ! k), win_h (deskWins s' ! k), win_minW (deskWins s' ! k),
                      win_minH (deskWins s' ! k), win_fullscreen (deskWins s' ! k))
                     = appDefaults 3"
      "zorder s' = int k # zorder initDesk" "activeWin s' = int k"
    by (elim exE conjE)
  have "k = 0"
  proof (rule ccontr)
    assume "k \<noteq> 0"
    then have "0 < k" by simp
    with ks(2) initDesk_facts(4) show False by blast
  qed
  with ks z0 have "deskOpenWindow 3 ''TODO'' initDesk = Some s' \<and> zorder s' = [0] \<and> activeWin s' = 0
          \<and> win_w (deskWins s' ! 0) = 85 \<and> win_h (deskWins s' ! 0) = 60
          \<and> win_minW (deskWins s' ! 0) = 70 \<and> win_minH (deskWins s' ! 0) = 50
          \<and> win_x (deskWins s' ! 0) = 20 \<and> win_y (deskWins s' ! 0) = 10"
    by (simp add: appDefaults.simps)
  with a show ?thesis by blast
qed

lemma shiftBack_front:
  "n < length a \<Longrightarrow> c \<le> length a \<Longrightarrow> n < c \<Longrightarrow>
     take c ((a ! 0 # take n a @ drop (Suc n) a)[0 := v])
       = v # take n (take c a) @ drop (Suc n) (take c a)"
proof -
  assume a: "n < length a" "c \<le> length a" "n < c"
  obtain c' where c': "c = Suc c'" using a(3) by (cases c) auto
  have "take c' (take n a @ drop (Suc n) a) = take n a @ take (c' - n) (drop (Suc n) a)"
    using a c' by simp
  moreover have "take (c' - n) (drop (Suc n) a) = drop (Suc n) (take c a)"
    using a c' by (simp add: drop_take)
  moreover have "take n (take c a) = take n a" using a by (simp add: min_def)
  ultimately show ?thesis using c' by simp
qed

text \<open>
  Claim C8, as amended.  For a position \<open>orderIdx > 0\<close> inside the z-order,
  \<open>deskBringToFront\<close> moves the window at that position to the front, keeps the relative
  order of the others and focuses it.  For \<open>orderIdx \<le> 0\<close> it returns at once with the state
  unchanged, \<open>activeWin\<close> included (the focus is set by the caller); hence calling it on
  the front element is idempotent.
\<close>

theorem deskBringToFront_rotates:
  assumes len: "length (deskWinOrder s) = MAX_DESK_WINDOWS"
    and cnt: "deskWinCount s \<le> MAX_DESK_WINDOWS"
    and idx: "orderIdx < int (deskWinCount s)"
  shows "(if orderIdx \<le> 0 then deskBringToFront orderIdx s = Some s
          else (\<exists>s'. deskBringToFront orderIdx s = Some s'
                 \<and> zorder s' = zorder s ! nat orderIdx # take (nat orderIdx) (zorder s)
                                  @ drop (Suc (nat orderIdx)) (zorder s)
                 \<and> activeWin s' = zorder s ! nat orderIdx
                 \<and> deskWinCount s' = deskWinCount s \<and> deskWins s' = deskWins s))
         \<and> Option.bind (deskBringToFront 0 s) (deskBringToFront 0) = deskBringToFront 0 s"
proof -
  have idem: "Option.bind (deskBringToFront 0 s) (deskBringToFront 0) = deskBringToFront 0 s"
    by (simp add: deskBringToFront_def)
  show ?thesis
  proof (cases "orderIdx \<le> 0")
    case True
    then have "deskBringToFront orderIdx s = Some s" by (simp add: deskBringToFront_def)
    then show ?thesis using idem by (simp only: if_P [OF True] simp_thms)
  next
    case False
    define n where "n = nat orderIdx"
    define a where "a = deskWinOrder s"
    define s' where "s' = s\<lparr> deskWinOrder := (a ! 0 # take n a @ drop (Suc n) a)[0 := a ! n],
                   activeWin := a ! n \<rparr>"
    have n: "n < deskWinCount s" "n < length a" "deskWinCount s \<le> length a"
      using False idx cnt len by (auto simp: n_def a_def)
    have eq: "deskBringToFront orderIdx s = Some s'"
      using False n by (simp add: deskBringToFront_def shiftBack_eq Let_def s'_def n_def a_def)
    have zn: "zorder s ! n = a ! n" using n by (simp add: zorder_def a_def)
    have "zorder s' = take (deskWinCount s) ((a ! 0 # take n a @ drop (Suc n) a)[0 := a ! n])"
      by (simp add: zorder_def s'_def)
    also have "\<dots> = a ! n # take n (take (deskWinCount s) a) @ drop (Suc n) (take (deskWinCount s) a)"
      by (rule shiftBack_front [OF n(2) n(3) n(1)])
    finally have z0: "zorder s' = a ! n # take n (take (deskWinCount s) a)
                                    @ drop (Suc n) (take (deskWinCount s) a)" .
    have z: "zorder s' = zorder s ! n # take n (zorder s) @ drop (Suc n) (zorder s)"
      using z0 n by (simp add: zorder_def a_def)
    have c3: "activeWin s' = zorder s ! n" by (simp add: zn s'_def)
    have c4: "deskWinCount s' = deskWinCount s" by (simp add: s'_def)
    have c5: "deskWins s' = deskWins s" by (simp add: s'_def)
    have "\<exists>s'. deskBringToFront orderIdx s = Some s'
                 \<and> zorder s' = zorder s ! n # take n (zorder s) @ drop (Suc n) (zorder s)
                 \<and> activeWin s' = zorder s ! n
                 \<and> deskWinCount s' = deskWinCount s \<and> deskWins s' = deskWins s"
      using eq z c3 c4 c5 by blast
    then show ?thesis unfolding n_def using idem by (simp only: if_not_P [OF False] simp_thms)
  qed
qed

lemma twoWindows_facts:
  "length (deskWinOrder twoWindows) = 15" "deskWinCount twoWindows = 2"
  "zorder twoWindows = [1, 0]"
  by code_simp+

theorem deskBringToFront_rotates_witness:
  "length (deskWinOrder twoWindows) = MAX_DESK_WINDOWS
   \<and> deskWinCount twoWindows \<le> MAX_DESK_WINDOWS
   \<and> (1 :: int) < int (deskWinCount twoWindows)
   \<and> (\<exists>s'. deskBringToFront 1 twoWindows = Some s' \<and> zorder s' = [0, 1] \<and> activeWin s' = 0)
   \<and> deskBringToFront 0 twoWindows = Some twoWindows"
proof -
  have h: "length (deskWinOrder twoWindows) = MAX_DESK_WINDOWS"
    "deskWinCount twoWindows \<le> MAX_DESK_WINDOWS"
    using twoWindows_facts by (simp_all add: MAX_DESK_WINDOWS_def)
  have i1: "(1 :: int) < int (deskWinCount twoWindows)"
    and i0: "(0 :: int) < int (deskWinCount twoWindows)"
    using twoWindows_facts by simp_all
  from deskBringToFront_rotates [OF h i1] obtain s' where
    "deskBringToFront 1 twoWindows = Some s'"
    "zorder s' = zorder twoWindows ! nat 1 # take (nat 1) (zorder twoWindows)
                   @ drop (Suc (nat 1)) (zorder twoWindows)"
    "activeWin s' = zorder twoWindows ! nat 1"
    by auto
  then have a: "\<exists>s'. deskBringToFront 1 twoWindows = Some s' \<and> zorder s' = [0, 1] \<and> activeWin s' = 0"
    by (simp add: twoWindows_facts)
  from deskBringToFront_rotates [OF h i0] have b: "deskBringToFront 0 twoWindows = Some twoWindows"
    by simp
  from h i1 a b show ?thesis by blast
qed

text \<open>
  The claim as written fails at the front position: after a click on a close button the
  handler leaves \<open>activeWin = -1\<close> while a window remains in front, and
  \<open>deskBringToFront(0)\<close> does not focus that window.
\<close>

theorem deskBringToFront_front_keeps_focus_counterexample:
  "0 < deskWinCount afterCloseClick
   \<and> deskBringToFront 0 afterCloseClick = Some afterCloseClick
   \<and> activeWin afterCloseClick \<noteq> deskWinOrder afterCloseClick ! 0"
  by code_simp

section \<open>Verification of drag and resize sessions\<close>

lemma geomOK_newWindow: "geomOK (newWindow slot appType title)"
proof -
  have "win_w (newWindow slot appType title) \<le> 180 \<and> win_h (newWindow slot appType title) \<le> 120"
    by (simp add: newWindow_def appDefaults.simps)
  moreover have "0 \<le> win_x (newWindow slot appType title) \<and> 0 \<le> win_y (newWindow slot appType title)"
    by (simp add: newWindow_def split: prod.splits)
  ultimately show ?thesis by (simp add: geomOK_def SCREEN_WIDTH_def SCREEN_HEIGHT_def)
qed

lemma geomOK_flags [simp]:
  "geomOK (w\<lparr> win_open := b \<rparr>) = geomOK w"
  "geomOK (w\<lparr> win_maximized := b \<rparr>) = geomOK w"
  by (simp_all add: geomOK_def)

lemma dragUpdate_size [simp]:
  "win_w (dragUpdate mx my ox oy w) = win_w w" "win_h (dragUpdate mx my ox oy w) = win_h w"
  "win_minW (dragUpdate mx my ox oy w) = win_minW w" "win_minH (dragUpdate mx my ox oy w) = win_minH w"
  by (simp_all add: dragUpdate_def Let_def)

lemma dragUpdate_on_screen:
  assumes "win_w w \<le> SCREEN_WIDTH" "win_h w \<le> SCREEN_HEIGHT"
  shows "0 \<le> win_x (dragUpdate mx my ox oy w)"
    and "win_x (dragUpdate mx my ox oy w) + win_w w \<le> SCREEN_WIDTH"
    and "0 \<le> win_y (dragUpdate mx my ox oy w)"
    and "win_y (dragUpdate mx my ox oy w) + win_h w \<le> SCREEN_HEIGHT"
  using assms by (simp_all add: dragUpdate_def Let_def)

lemma geomOK_dragUpdate: "geomOK w \<Longrightarrow> geomOK (dragUpdate mx my ox oy w)"
  using dragUpdate_on_screen [of w mx my ox oy] by (simp add: geomOK_def)

lemma resizeUpdate_origin [simp]:
  "win_x (resizeUpdate mx my ox oy w) = win_x w" "win_y (resizeUpdate mx my ox oy w) = win_y w"
  "win_minW (resizeUpdate mx my ox oy w) = win_minW w" "win_minH (resizeUpdate mx my ox oy w) = win_minH w"
  by (simp_all add: resizeUpdate_def Let_def)

lemma resizeUpdate_on_screen:
  "win_x w + win_w (resizeUpdate mx my ox oy w) \<le> SCREEN_WIDTH"
  "win_y w + win_h (resizeUpdate mx my ox oy w) \<le> SCREEN_HEIGHT"
  by (simp_all add: resizeUpdate_def Let_def)

lemma geomOK_resizeUpdate: "geomOK w \<Longrightarrow> geomOK (resizeUpdate mx my ox oy w)"
  using resizeUpdate_on_screen [of w mx my ox oy] by (simp add: geomOK_def)

lemma list_all_update: "list_all P xs \<Longrightarrow> P v \<Longrightarrow> list_all P (xs[i := v])"
proof (induction xs arbitrary: i)
  case Nil
  then show ?case by simp
next
  case (Cons x xs)
  then show ?case by (cases i) simp_all
qed

lemma list_all_nth: "list_all P xs \<Longrightarrow> i < length xs \<Longrightarrow> P (xs ! i)"
  by (simp add: list_all_iff)

lemma geomInv_open:
  assumes "deskOpenWindow appType title s = Some s'" "geomInv s"
  shows "geomInv s'"
proof -
  have "deskWins s' = deskWins s \<or> (\<exists>k. deskWins s' = (deskWins s)[k := newWindow k appType title])"
    using assms(1)
    by (auto simp: deskOpenWindow_def Let_def split: if_splits option.splits)
  then show ?thesis using assms(2)
    by (auto simp: geomInv_def intro!: list_all_update geomOK_newWindow)
qed

lemma deskWins_close:
  assumes "deskCloseWindow winIdx s = Some s'"
  shows "deskWins s' = deskWins s
       \<or> (nat winIdx < length (deskWins s)
           \<and> deskWins s' = (deskWins s)[nat winIdx := (deskWins s ! nat winIdx)\<lparr> win_open := False \<rparr>])"
  using assms
  by (auto simp: deskCloseWindow_def Let_def refocus_def split: if_splits option.splits)

lemma geomInv_close:
  assumes "deskCloseWindow winIdx s = Some s'" "geomInv s"
  shows "geomInv s'"
  using deskWins_close [OF assms(1)] assms(2)
  by (auto simp: geomInv_def list_all_nth intro!: list_all_update)

lemma deskWins_bringToFront:
  "deskBringToFront orderIdx s = Some s' \<Longrightarrow> deskWins s' = deskWins s"
  by (auto simp: deskBringToFront_def Let_def split: if_splits option.splits)

lemma deskWins_focusHit: "focusHit hitOrder s = Some s' \<Longrightarrow> deskWins s' = deskWins s"
  by (auto simp: focusHit_def split: if_splits option.splits dest: deskWins_bringToFront)

lemma geomInv_clickCloseButton:
  assumes "clickCloseButton hitOrder s = Some s'" "geomInv s"
  shows "geomInv s'"
proof (cases "hitOrder < 0")
  case True
  with assms show ?thesis by (simp add: clickCloseButton_def)
next
  case False
  with assms(1) obtain s1 s2 where
    s1: "deskBringToFront hitOrder s = Some s1"
    and s2: "deskCloseWindow (deskWinOrder s ! nat hitOrder)
               (s1\<lparr> activeWin := deskWinOrder s ! nat hitOrder \<rparr>) = Some s2"
    and s': "s' = s2\<lparr> activeWin := - 1 \<rparr>"
    by (auto simp: clickCloseButton_def Let_def split: if_splits option.splits)
  have "geomInv (s1\<lparr> activeWin := deskWinOrder s ! nat hitOrder \<rparr>)"
    using deskWins_bringToFront [OF s1] assms(2) by (simp add: geomInv_def)
  from geomInv_close [OF s2 this] s' show ?thesis by (simp add: geomInv_def)
qed

lemma stepCursor_session [simp]:
  "dragging (stepCursor up down left right v p) = dragging p"
  "resizing (stepCursor up down left right v p) = resizing p"
  "dragWinIdx (stepCursor up down left right v p) = dragWinIdx p"
  "dragOffX (stepCursor up down left right v p) = dragOffX p"
  "dragOffY (stepCursor up down left right v p) = dragOffY p"
  "prevMouseX (stepCursor up down left right v p) = prevMouseX p"
  "prevMouseY (stepCursor up down left right v p) = prevMouseY p"
  by (simp_all add: stepCursor_def Let_def)

lemma clampCursor_session [simp]:
  "dragging (clampCursor p) = dragging p"
  "resizing (clampCursor p) = resizing p"
  "dragWinIdx (clampCursor p) = dragWinIdx p"
  "dragOffX (clampCursor p) = dragOffX p"
  "dragOffY (clampCursor p) = dragOffY p"
  "prevMouseX (clampCursor p) = prevMouseX p"
  "prevMouseY (clampCursor p) = prevMouseY p"
  by (simp_all add: clampCursor_def Let_def)

lemma clampCursor_on_screen:
  "0 \<le> mouseX (clampCursor p)" "mouseX (clampCursor p) < SCREEN_WIDTH"
  "0 \<le> mouseY (clampCursor p)" "mouseY (clampCursor p) < SCREEN_HEIGHT"
  by (simp_all add: clampCursor_def Let_def SCREEN_WIDTH_def SCREEN_HEIGHT_def)

lemma pointerMove_Some:
  assumes "pointerMove up down left right v hidden (p, s) = Some (p', s')"
  shows "sessionUpdate p' (deskWins s) = Some (deskWins s')"
    and "dragging p' = dragging p" and "resizing p' = resizing p"
    and "dragWinIdx p' = dragWinIdx p"
    and "dragOffX p' = dragOffX p" and "dragOffY p' = dragOffY p"
    and "prevMouseX p' = mouseX p" and "prevMouseY p' = mouseY p"
    and "s' = s\<lparr> deskWins := deskWins s' \<rparr>"
  using assms
  by (auto simp: pointerMove_def Let_def split: if_splits)

lemma sessionUpdate_idle:
  "\<not> (0 \<le> dragWinIdx p \<and> cursorMoved p \<and> (dragging p \<or> resizing p))
     \<Longrightarrow> sessionUpdate p ws = Some ws"
  by (auto simp: sessionUpdate_def Let_def)

lemma sessionUpdate_drag:
  assumes "sessionUpdate p ws = Some ws'" "dragging p" "0 \<le> dragWinIdx p" "cursorMoved p"
  shows "nat (dragWinIdx p) < length ws"
    and "ws' ! nat (dragWinIdx p) =
           (let d = dragUpdate (mouseX p) (mouseY p) (dragOffX p) (dragOffY p) (ws ! nat (dragWinIdx p))
            in if resizing p then resizeUpdate (mouseX p) (mouseY p) (dragOffX p) (dragOffY p) d
               else d)"
  using assms by (auto simp: sessionUpdate_def Let_def split: if_splits)


lemma sessionUpdate_geom:
  assumes "sessionUpdate p ws = Some ws'" "list_all geomOK ws"
  shows "list_all geomOK ws'"
proof -
  define i where "i = nat (dragWinIdx p)"
  define ws1 where "ws1 = (if dragging p \<and> 0 \<le> dragWinIdx p \<and> cursorMoved p
       then ws[i := dragUpdate (mouseX p) (mouseY p) (dragOffX p) (dragOffY p) (ws ! i)] else ws)"
  define ws2 where "ws2 = (if resizing p \<and> 0 \<le> dragWinIdx p \<and> cursorMoved p
       then ws1[i := resizeUpdate (mouseX p) (mouseY p) (dragOffX p) (dragOffY p) (ws1 ! i)]
       else ws1)"
  have eq: "ws' = ws2" and inb: "(dragging p \<or> resizing p) \<and> 0 \<le> dragWinIdx p \<and> cursorMoved p
       \<longrightarrow> i < length ws"
    using assms(1) by (auto simp: sessionUpdate_def Let_def ws2_def ws1_def i_def split: if_splits)
  have l1: "length ws1 = length ws" by (simp add: ws1_def)
  have g1: "list_all geomOK ws1"
  proof (cases "dragging p \<and> 0 \<le> dragWinIdx p \<and> cursorMoved p")
    case False
    then have "ws1 = ws" unfolding ws1_def by (rule if_not_P)
    then show ?thesis using assms(2) by simp
  next
    case True
    then have e: "ws1 = ws[i := dragUpdate (mouseX p) (mouseY p) (dragOffX p) (dragOffY p) (ws ! i)]"
      unfolding ws1_def by (rule if_P)
    have "i < length ws" using inb True by blast
    then have "geomOK (ws ! i)" using assms(2) by (simp add: list_all_nth)
    then show ?thesis unfolding e using assms(2)
      by (intro list_all_update geomOK_dragUpdate)
  qed
  have "list_all geomOK ws2"
  proof (cases "resizing p \<and> 0 \<le> dragWinIdx p \<and> cursorMoved p")
    case False
    then have "ws2 = ws1" unfolding ws2_def by (rule if_not_P)
    then show ?thesis using g1 by simp
  next
    case True
    then have e: "ws2 = ws1[i := resizeUpdate (mouseX p) (mouseY p) (dragOffX p) (dragOffY p) (ws1 ! i)]"
      unfolding ws2_def by (rule if_P)
    have "i < length ws1" using inb True l1 by simp
    then have "geomOK (ws1 ! i)" using g1 by (simp add: list_all_nth)
    then show ?thesis unfolding e using g1
      by (intro list_all_update geomOK_resizeUpdate)
  qed
  with eq show ?thesis by simp
qed

lemma geomInv_pointerMove:
  assumes "pointerMove up down left right v hidden (p, s) = Some (p', s')" "geomInv s"
  shows "geomInv s'"
  using sessionUpdate_geom [OF pointerMove_Some(1) [OF assms(1)]] assms(2)
  by (simp add: geomInv_def)

lemma geomInv_clickWindows:
  assumes "clickWindows (p, s) = Some (p', s')" "geomInv s"
  shows "geomInv s'"
proof (cases "dragging p \<or> resizing p")
  case True
  with assms show ?thesis by (auto simp: clickWindows_def Let_def split: if_splits)
next
  case False
  with assms(1) obtain hitOrder where h: "deskPtrHitsWindow 0 p s = Some hitOrder"
    by (auto simp: clickWindows_def Let_def split: option.splits)
  show ?thesis
  proof (cases "hitOrder < 0")
    case True
    with False h assms show ?thesis by (auto simp: clickWindows_def Let_def)
  next
    case nonneg: False
    with False h assms(1) obtain s2 where s2: "focusHit hitOrder s = Some s2"
      by (auto simp: clickWindows_def Let_def split: option.splits)
    have w2: "deskWins s2 = deskWins s" by (rule deskWins_focusHit [OF s2])
    then have g2: "geomInv s2" using assms(2) by (simp add: geomInv_def)
    let ?i = "nat (activeWin s2)"
    have inb: "?i < length (deskWins s2)"
      using False h nonneg s2 assms(1) by (auto simp: clickWindows_def Let_def split: if_splits)
    have cases: "s' = s2 \<or> clickCloseButton hitOrder s = Some s'
        \<or> s' = s2\<lparr> deskWins := (deskWins s2)
              [?i := (deskWins s2 ! ?i)\<lparr> win_maximized := \<not> win_maximized (deskWins s2 ! ?i) \<rparr>] \<rparr>"
      using False h nonneg s2 assms(1)
      by (auto simp: clickWindows_def Let_def split: if_splits click_target.splits)
    then show ?thesis
    proof (elim disjE)
      assume "s' = s2"
      with g2 show ?thesis by simp
    next
      assume "clickCloseButton hitOrder s = Some s'"
      then show ?thesis using assms(2) by (rule geomInv_clickCloseButton)
    next
      assume "s' = s2\<lparr> deskWins := (deskWins s2)
              [?i := (deskWins s2 ! ?i)\<lparr> win_maximized := \<not> win_maximized (deskWins s2 ! ?i) \<rparr>] \<rparr>"
      then show ?thesis using g2 inb
        by (auto simp: geomInv_def list_all_nth intro!: list_all_update)
    qed
  qed
qed

lemma geomInv_guiStep:
  assumes "guiStep e ps = Some ps'" "geomInv (snd ps)"
  shows "geomInv (snd ps')"
proof (cases e)
  case (EvOpen appType title)
  with assms show ?thesis by (auto dest: geomInv_open)
next
  case (EvClose winIdx)
  with assms show ?thesis by (auto dest: geomInv_close)
next
  case (EvMove up down left right v hidden)
  with assms show ?thesis
    using geomInv_pointerMove [of up down left right v hidden "fst ps" "snd ps" "fst ps'" "snd ps'"]
    by simp
next
  case EvClick
  with assms show ?thesis
    using geomInv_clickWindows [of "fst ps" "snd ps" "fst ps'" "snd ps'"] by simp
qed

lemma geomInv_guiRun:
  "guiRun es ps = Some ps' \<Longrightarrow> geomInv (snd ps) \<Longrightarrow> geomInv (snd ps')"
proof (induction es arbitrary: ps)
  case Nil
  then show ?case by simp
next
  case (Cons e es)
  then obtain ps1 where s: "guiStep e ps = Some ps1" "guiRun es ps1 = Some ps'"
    by (auto split: option.splits)
  from geomInv_guiStep [OF s(1) Cons.prems(2)] Cons.IH [OF s(2)] show ?case by simp
qed

lemma geomInv_init: "geomInv initDesk"
  by (simp add: geomInv_def initDesk_def geomOK_def emptyWindow_def SCREEN_WIDTH_def
      SCREEN_HEIGHT_def list_all_iff)

text \<open>
  Claim C4.  In every history of the desktop since boot, after a pass of the cursor code in
  which a drag session is active and the cursor moved, the dragged window has
  \<open>x \<ge> 0\<close>, \<open>x + w \<le> 240\<close> and \<open>y \<ge> 0\<close>.  (Its bottom may lie in the taskbar band: the
  vertical clamp is against the full screen height.)  The histories cover every place
  where the source writes a window's \<open>x\<close>, \<open>y\<close>, \<open>w\<close> or \<open>h\<close>: \<open>deskOpenWindow\<close>, the drag block
  and the resize block.
\<close>

theorem drag_keeps_window_on_screen:
  assumes run: "guiRun es (initPointer, initDesk) = Some (p, s)"
    and mv: "pointerMove up down left right mouseSpeed cursorHidden (p, s) = Some (p', s')"
    and sess: "dragging p'" "0 \<le> dragWinIdx p'" "cursorMoved p'"
  shows "0 \<le> win_x (deskWins s' ! nat (dragWinIdx p'))
       \<and> win_x (deskWins s' ! nat (dragWinIdx p')) + win_w (deskWins s' ! nat (dragWinIdx p'))
            \<le> SCREEN_WIDTH
       \<and> 0 \<le> win_y (deskWins s' ! nat (dragWinIdx p'))"
proof -
  define i where "i = nat (dragWinIdx p')"
  define w where "w = deskWins s ! i"
  define d where "d = dragUpdate (mouseX p') (mouseY p') (dragOffX p') (dragOffY p') w"
  have "geomInv s" using geomInv_guiRun [OF run] geomInv_init by simp
  have su: "sessionUpdate p' (deskWins s) = Some (deskWins s')"
    by (rule pointerMove_Some(1) [OF mv])
  have inb: "i < length (deskWins s)"
    unfolding i_def by (rule sessionUpdate_drag(1) [OF su sess])
  have w': "deskWins s' ! i = (if resizing p'
      then resizeUpdate (mouseX p') (mouseY p') (dragOffX p') (dragOffY p') d else d)"
    using sessionUpdate_drag(2) [OF su sess] by (simp add: i_def w_def d_def Let_def)
  have gw: "geomOK w" using \<open>geomInv s\<close> inb by (simp add: geomInv_def w_def list_all_nth)
  then have sz: "win_w w \<le> SCREEN_WIDTH" "win_h w \<le> SCREEN_HEIGHT" by (simp_all add: geomOK_def)
  have dx: "0 \<le> win_x d" "win_x d + win_w d \<le> SCREEN_WIDTH" "0 \<le> win_y d"
    using dragUpdate_on_screen [OF sz] by (simp_all add: d_def)
  have "0 \<le> win_x (deskWins s' ! i) \<and> win_x (deskWins s' ! i) + win_w (deskWins s' ! i) \<le> SCREEN_WIDTH
       \<and> 0 \<le> win_y (deskWins s' ! i)"
  proof (cases "resizing p'")
    case False
    with w' dx show ?thesis by simp
  next
    case True
    with w' dx resizeUpdate_on_screen(1) [of d] show ?thesis by simp
  qed
  then show ?thesis by (simp add: i_def)
qed

lemma dragPath_facts:
  "guiRun dragPath (initPointer, initDesk) = Some dragStart"
  "pointerMove False False False True 4 False dragStart = Some dragDone"
  "dragging (fst dragDone)" "dragWinIdx (fst dragDone) = 0" "cursorMoved (fst dragDone)"
  "win_x (deskWins (snd dragDone) ! 0) = 60" "win_w (deskWins (snd dragDone) ! 0) = 180"
  "win_y (deskWins (snd dragDone) ! 0) = 10"
  by code_simp+

theorem drag_keeps_window_on_screen_witness:
  "guiRun dragPath (initPointer, initDesk) = Some dragStart
   \<and> pointerMove False False False True 4 False dragStart = Some dragDone
   \<and> dragging (fst dragDone) \<and> 0 \<le> dragWinIdx (fst dragDone) \<and> cursorMoved (fst dragDone)
   \<and> win_x (deskWins (snd dragDone) ! 0) = 60 \<and> win_w (deskWins (snd dragDone) ! 0) = 180
   \<and> 0 \<le> win_x (deskWins (snd dragDone) ! nat (dragWinIdx (fst dragDone)))
   \<and> win_x (deskWins (snd dragDone) ! nat (dragWinIdx (fst dragDone)))
        + win_w (deskWins (snd dragDone) ! nat (dragWinIdx (fst dragDone))) \<le> SCREEN_WIDTH
   \<and> 0 \<le> win_y (deskWins (snd dragDone) ! nat (dragWinIdx (fst dragDone)))"
proof -
  have run: "guiRun dragPath (initPointer, initDesk) = Some (fst dragStart, snd dragStart)"
    using dragPath_facts(1) by simp
  have mv: "pointerMove False False False True 4 False (fst dragStart, snd dragStart)
              = Some (fst dragDone, snd dragDone)"
    using dragPath_facts(2) by simp
  have sess: "dragging (fst dragDone)" "0 \<le> dragWinIdx (fst dragDone)" "cursorMoved (fst dragDone)"
    using dragPath_facts(3,4,5) by simp_all
  from drag_keeps_window_on_screen [OF run mv sess] dragPath_facts sess show ?thesis
    by simp
qed





section \<open>Verification of the frame buffer fallback\<close>

lemma flushBuffer_noop: "\<not> bufferReady s \<or> \<not> bufferValid s \<Longrightarrow> flushBuffer s = s"
  by (auto simp: flushBuffer_def)

lemma initDoubleBuffer_fails:
  assumes "\<not> bufferReady s" "deskBuffer s = None" "r \<noteq> AllocOk"
  shows "initDoubleBuffer r s = (False, s\<lparr> bufferReady := False, deskBuffer := None \<rparr>)"
  using assms by (cases r) (simp_all add: initDoubleBuffer_def bufferValid_def newCanvas_def)

lemma directDraws_fields [simp]:
  "gfx (directDraws s cs) = gfx s" "deskBuffer (directDraws s cs) = deskBuffer s"
  "bufferReady (directDraws s cs) = bufferReady s"
  "tftLog (directDraws s cs) = tftLog s @ map TftDraw cs"
  by (simp_all add: directDraws_def)

lemma directDraws_Nil [simp]: "directDraws s [] = s"
  by (simp add: directDraws_def)

lemma directDraws_append [simp]: "directDraws (directDraws s as) bs = directDraws s (as @ bs)"
  by (simp add: directDraws_def)

lemma drawAll_tft: "gfx s = GfxTft \<Longrightarrow> drawAll cs s = Inr (directDraws s cs)"
proof (induction cs arbitrary: s)
  case Nil
  then show ?case by simp
next
  case (Cons c cs)
  have "drawVia c s = Inr (directDraws s [c])"
    using Cons.prems by (simp add: drawVia_def directDraws_def)
  moreover have "drawAll cs (directDraws s [c]) = Inr (directDraws (directDraws s [c]) cs)"
    using Cons.prems by (intro Cons.IH) simp
  ultimately show ?case by simp
qed

lemma drawImageViewer_null:
  assumes "imageLoaded d v" "deskBuffer s = None"
  shows "drawImageViewer now mx my w (d, v, s) = Inl NullPointer"
  using assms by (simp add: drawImageViewer_def imageLoaded_def split: prod.splits)

lemma drawImageViewer_tft:
  assumes "\<not> imageLoaded d v" "gfx s = GfxTft" "contentRect w = (cx, cy, cw, ch)"
  shows "drawImageViewer now mx my w (d, v, s)
         = Inr (d, v, directDraws s [DrawText (cx + 4) (cy + half ch - 4)
                   (if viewingBMP d then ''Load failed'' else ''No image loaded'')])"
  using assms by (auto simp: drawImageViewer_def imageLoaded_def drawVia_def directDraws_def)

lemma deskDrawWindow_tft:
  assumes "gfx s = GfxTft" "nat winIdx < length (deskWins d)"
    and "\<not> (imageLoaded d v \<and> win_appType (deskWins d ! nat winIdx) = 12)"
  shows "deskDrawWindow P now mx my winIdx (d, v, s) = Inr (d, v, directDraws s (windowCalls P d winIdx))"
proof (cases "winIdx < 0 \<or> \<not> win_open (deskWins d ! nat winIdx)")
  case True
  then show ?thesis using assms(2) by (auto simp: deskDrawWindow_def windowCalls_def Let_def)
next
  case False
  define w where "w = deskWins d ! nat winIdx"
  define s1 where "s1 = directDraws s (frameCalls P w (winIdx = activeWin d))"
  have f: "drawAll (frameCalls P w (winIdx = activeWin d)) s = Inr s1"
    unfolding s1_def by (rule drawAll_tft [OF assms(1)])
  have g1: "gfx s1 = GfxTft" using assms(1) by (simp add: s1_def)
  show ?thesis
  proof (cases "win_appType w = 12")
    case True
    obtain cx cy cw ch where cr: "contentRect w = (cx, cy, cw, ch)" by (cases "contentRect w")
    have nl: "\<not> imageLoaded d v" using assms(3) True by (simp add: w_def)
    have "drawImageViewer now mx my w (d, v, s1)
         = Inr (d, v, directDraws s1 [DrawText (cx + 4) (cy + half ch - 4)
                   (if viewingBMP d then ''Load failed'' else ''No image loaded'')])"
      by (rule drawImageViewer_tft [OF nl g1 cr])
    then show ?thesis using False True assms(2) f cr
      by (simp add: deskDrawWindow_def windowCalls_def Let_def w_def [symmetric] s1_def)
  next
    case nv: False
    have "drawAll (contentCalls P w) s1 = Inr (directDraws s1 (contentCalls P w))"
      by (rule drawAll_tft [OF g1])
    then show ?thesis using False nv assms(2) f
      by (simp add: deskDrawWindow_def windowCalls_def Let_def w_def [symmetric] s1_def)
  qed
qed

lemma deskDrawWindow_null:
  assumes "gfx s = GfxTft" "deskBuffer s = None" "0 \<le> winIdx" "nat winIdx < length (deskWins d)"
    and "win_open (deskWins d ! nat winIdx)" "win_appType (deskWins d ! nat winIdx) = 12"
    and "imageLoaded d v"
  shows "deskDrawWindow P now mx my winIdx (d, v, s) = Inl NullPointer"
proof -
  define w where "w = deskWins d ! nat winIdx"
  define s1 where "s1 = directDraws s (frameCalls P w (winIdx = activeWin d))"
  have f: "drawAll (frameCalls P w (winIdx = activeWin d)) s = Inr s1"
    unfolding s1_def by (rule drawAll_tft [OF assms(1)])
  have "deskBuffer s1 = None" using assms(2) by (simp add: s1_def)
  then have "drawImageViewer now mx my w (d, v, s1) = Inl NullPointer"
    by (rule drawImageViewer_null [OF assms(7)])
  then show ?thesis using assms(3-6) f
    by (simp add: deskDrawWindow_def Let_def w_def [symmetric])
qed

lemma zorder_entry:
  assumes "deskInv d" "i < deskWinCount d"
  shows "i < length (deskWinOrder d)" "deskWinOrder d ! i \<in> set (zorder d)"
    "0 \<le> deskWinOrder d ! i" "nat (deskWinOrder d ! i) < length (deskWins d)"
    "win_open (deskWins d ! nat (deskWinOrder d ! i))"
proof -
  show l: "i < length (deskWinOrder d)" using assms by (simp add: deskInv_def)
  have "zorder d ! i = deskWinOrder d ! i" using assms(2) by (simp add: zorder_def)
  moreover have "i < length (zorder d)" using assms l by (simp add: zorder_def)
  ultimately show m: "deskWinOrder d ! i \<in> set (zorder d)" by (metis nth_mem)
  then have "deskWinOrder d ! i \<in> openSlots d" using assms(1) by (simp add: deskInv_def)
  then obtain k where k: "deskWinOrder d ! i = int k" "k < length (deskWins d)"
    "win_open (deskWins d ! k)" by (auto simp: openSlots_def)
  show "0 \<le> deskWinOrder d ! i" using k by simp
  show "nat (deskWinOrder d ! i) < length (deskWins d)" using k by simp
  show "win_open (deskWins d ! nat (deskWinOrder d ! i))" using k by simp
qed

lemma drawWindows_tft:
  assumes "deskInv d" "n \<le> deskWinCount d" "gfx s = GfxTft"
    and "\<not> (imageLoaded d v \<and> (\<exists>i<n. win_appType (deskWins d ! nat (deskWinOrder d ! i)) = 12))"
  shows "drawWindows P now mx my n (d, v, s)
         = Inr (d, v, directDraws s (concat (map (windowCalls P d) (rev (take n (deskWinOrder d))))))"
  using assms(2-4)
proof (induction n arbitrary: s)
  case 0
  then show ?case by simp
next
  case (Suc n)
  have n: "n < deskWinCount d" using Suc.prems(1) by simp
  note z = zorder_entry [OF assms(1) n]
  define s1 where "s1 = directDraws s (windowCalls P d (deskWinOrder d ! n))"
  have "\<not> (imageLoaded d v \<and> win_appType (deskWins d ! nat (deskWinOrder d ! n)) = 12)"
    using Suc.prems(3) by auto
  then have w: "deskDrawWindow P now mx my (deskWinOrder d ! n) (d, v, s) = Inr (d, v, s1)"
    unfolding s1_def by (intro deskDrawWindow_tft Suc.prems(2) z(4))
  have rest: "\<not> (imageLoaded d v \<and> (\<exists>i<n. win_appType (deskWins d ! nat (deskWinOrder d ! i)) = 12))"
    using Suc.prems(3) by (meson less_Suc_eq)
  have "drawWindows P now mx my n (d, v, s1)
         = Inr (d, v, directDraws s1 (concat (map (windowCalls P d) (rev (take n (deskWinOrder d))))))"
    using n Suc.prems(2) rest by (intro Suc.IH) (simp_all add: s1_def)
  moreover have "rev (take (Suc n) (deskWinOrder d)) = deskWinOrder d ! n # rev (take n (deskWinOrder d))"
    using z(1) by (simp add: take_Suc_conv_app_nth)
  ultimately show ?case using w z(1) by (simp add: s1_def)
qed

lemma drawWindows_null:
  assumes "deskInv d" "n \<le> deskWinCount d" "gfx s = GfxTft" "deskBuffer s = None"
    and "imageLoaded d v" "\<exists>i<n. win_appType (deskWins d ! nat (deskWinOrder d ! i)) = 12"
  shows "drawWindows P now mx my n (d, v, s) = Inl NullPointer"
  using assms(2-4,6)
proof (induction n arbitrary: s)
  case 0
  then show ?case by simp
next
  case (Suc n)
  have n: "n < deskWinCount d" using Suc.prems(1) by simp
  note z = zorder_entry [OF assms(1) n]
  show ?case
  proof (cases "win_appType (deskWins d ! nat (deskWinOrder d ! n)) = 12")
    case True
    have "deskDrawWindow P now mx my (deskWinOrder d ! n) (d, v, s) = Inl NullPointer"
      by (rule deskDrawWindow_null [OF Suc.prems(2,3) z(3,4,5) True assms(5)])
    then show ?thesis using z(1) by simp
  next
    case False
    define s1 where "s1 = directDraws s (windowCalls P d (deskWinOrder d ! n))"
    have w: "deskDrawWindow P now mx my (deskWinOrder d ! n) (d, v, s) = Inr (d, v, s1)"
      unfolding s1_def using False by (intro deskDrawWindow_tft Suc.prems(2) z(4)) simp
    have "\<exists>i<n. win_appType (deskWins d ! nat (deskWinOrder d ! i)) = 12"
      using Suc.prems(4) False by (metis less_Suc_eq)
    then have "drawWindows P now mx my n (d, v, s1) = Inl NullPointer"
      using n Suc.prems(2,3) by (intro Suc.IH) (simp_all add: s1_def)
    then show ?thesis using w z(1) by simp
  qed
qed

lemma imageWindowOpen_index:
  assumes "deskInv d"
  shows "imageWindowOpen d
     \<longleftrightarrow> (\<exists>i<deskWinCount d. win_appType (deskWins d ! nat (deskWinOrder d ! i)) = 12)"
proof -
  have len: "length (zorder d) = deskWinCount d" using assms by (simp add: zorder_def deskInv_def)
  have nth: "\<And>i. i < deskWinCount d \<Longrightarrow> zorder d ! i = deskWinOrder d ! i"
    by (simp add: zorder_def)
  show ?thesis
    unfolding imageWindowOpen_def
    by (metis (no_types, lifting) in_set_conv_nth len nth)
qed

lemma fbInit_inv: "fbInv fbInit"
  by (simp add: fbInv_def fbInit_def)

lemma fbInv_initDoubleBuffer: "fbInv s \<Longrightarrow> fbInv (snd (initDoubleBuffer r s))"
  by (cases r)
    (auto simp: fbInv_def initDoubleBuffer_def bufferValid_def newCanvas_def Let_def
      split: option.splits if_splits)

lemma fbInv_enterDesktop: "fbInv s \<Longrightarrow> fbInv (enterDesktop r s)"
  using fbInv_initDoubleBuffer [of s r]
  by (auto simp: enterDesktop_def Let_def fbInv_def bufferValid_def split: if_splits)

lemma fbInv_flushBuffer: "fbInv s \<Longrightarrow> fbInv (flushBuffer s)"
  by (auto simp: flushBuffer_def fbInv_def bufferValid_def split: option.splits if_splits)

lemma fbFailed_facts:
  "fbInv fbFailed" "\<not> bufferReady fbFailed" "gfx fbFailed = GfxTft" "deskBuffer fbFailed = None"
  "tftLog fbFailed = []"
  by (simp_all add: fbFailed_def enterDesktop_def initDoubleBuffer_def fbInit_def newCanvas_def
      bufferValid_def fbInv_def)

lemma deskInv_viewer_fields:
  "deskInv (d\<lparr> bmpViewWidth := a, bmpViewHeight := b, viewingBMP := c,
               imgViewerOverlayVisible := e \<rparr>) = deskInv d"
  by (simp add: deskInv_def zorder_def openSlots_def)

lemma imageShell_inv: "deskInv (fst imageShell)"
proof -
  obtain d1 where d1: "deskOpenWindow 6 ''Files'' initDesk = Some d1" "deskInv d1"
    using deskInv_open [OF deskInv_init] by blast
  define d2 where "d2 = d1\<lparr> bmpViewWidth := SCREEN_WIDTH, bmpViewHeight := SCREEN_HEIGHT,
                 viewingBMP := True, imgViewerOverlayVisible := True \<rparr>"
  have "deskInv d2" using d1(2) by (simp add: d2_def deskInv_viewer_fields)
  then obtain d3 where d3: "deskOpenWindow 12 ''Image'' d2 = Some d3" "deskInv d3"
    using deskInv_open by blast
  have "fst imageShell = d3"
    using d1(1) d3(1) by (simp add: imageShell_def openImageFile_def d2_def)
  then show ?thesis using d3(2) by simp
qed

lemma twoWindows_inv: "deskInv twoWindows"
proof -
  obtain d1 where d1: "deskOpenWindow 1 ''Calc'' initDesk = Some d1" "deskInv d1"
    using deskInv_open [OF deskInv_init] by blast
  obtain d2 where d2: "deskOpenWindow 4 ''Notes'' d1 = Some d2" "deskInv d2"
    using deskInv_open [OF d1(2)] by blast
  have "twoWindows = d2" using d1(1) d2(1) by (simp add: twoWindows_def)
  then show ?thesis using d2(2) by simp
qed

text \<open>
  Claim C6.  In any state whose ready flag is false or whose canvas has no pixel buffer,
  \<open>flushBuffer\<close> returns the state unchanged: nothing is sent to the display.  When the
  buffer is not ready and the allocation attempted by \<open>deskFullRedraw\<close> fails too, the
  redraw does one of two things.  If an image is loaded and a window of the image viewer is
  open, \<open>deskDrawWindow\<close> reaches \<open>deskBuffer->getBuffer()\<close> with \<open>deskBuffer\<close> null and the redraw
  ends in a null pointer dereference: here the claim fails on the code.  (The image viewer
  of the Files app outside the desktop draws the same image pixel by pixel through
  \<open>bufferReady ? deskBuffer : &tft\<close>; the desktop one lacks the test.)  Otherwise
  \<open>deskFullRedraw\<close> returns normally with the registry and viewer state as they were, \<open>gfx\<close>
  pointing to \<open>tft\<close>, every call of the scene sent directly to the display and nothing else,
  its final \<open>flushBuffer\<close> again the identity, and the buffer state consistent.
\<close>

theorem redraw_without_frame_buffer:
  assumes inv: "deskInv d" and fb: "fbInv s" and notready: "\<not> bufferReady s"
    and fails: "r \<noteq> AllocOk"
  shows "(\<not> bufferReady q \<or> \<not> bufferValid q \<longrightarrow> flushBuffer q = q)
       \<and> flushBuffer s = s
       \<and> (imageLoaded d v \<and> imageWindowOpen d \<longrightarrow>
            deskFullRedraw r P now mx my (d, v, s) = Inl NullPointer)
       \<and> (\<not> (imageLoaded d v \<and> imageWindowOpen d) \<longrightarrow>
            (\<exists>s'. deskFullRedraw r P now mx my (d, v, s) = Inr (d, v, s')
                 \<and> gfx s' = GfxTft
                 \<and> tftLog s' = tftLog s @ map TftDraw (sceneCalls P d)
                 \<and> \<not> bufferReady s' \<and> deskBuffer s' = None
                 \<and> flushBuffer s' = s' \<and> fbInv s'))"
proof -
  have nb: "deskBuffer s = None" and ng: "gfx s \<noteq> GfxCanvas"
    using fb notready by (simp_all add: fbInv_def)
  define s1 where "s1 = s\<lparr> bufferReady := False, deskBuffer := None \<rparr>"
  define s2 where "s2 = s1\<lparr> gfx := GfxTft \<rparr>"
  define s3 where "s3 = directDraws s2 (backdropCalls P)"
  define wc where "wc = concat (map (windowCalls P d) (rev (take (deskWinCount d) (deskWinOrder d))))"
  define s4 where "s4 = directDraws s3 wc"
  define s5 where "s5 = directDraws s4 (topCalls P)"
  have i: "snd (initDoubleBuffer r s) = s1"
    using initDoubleBuffer_fails [OF notready nb fails] by (simp add: s1_def)
  have g: "(if gfx s1 = GfxNull then s1\<lparr> gfx := (if bufferReady s1 then GfxCanvas else GfxTft) \<rparr>
            else s1) = s2"
    using ng by (cases "gfx s") (simp_all add: s1_def s2_def)
  have b: "drawAll (backdropCalls P) s2 = Inr s3"
    unfolding s3_def by (rule drawAll_tft) (simp add: s2_def)
  have t3: "gfx s3 = GfxTft" "deskBuffer s3 = None"
    by (simp_all add: s3_def s2_def s1_def)
  have start: "deskFullRedraw r P now mx my (d, v, s)
      = (case drawWindows P now mx my (deskWinCount d) (d, v, s3) of
           Inl e \<Rightarrow> Inl e
         | Inr (d4, v4, s4) \<Rightarrow>
             (case drawAll (topCalls P) s4 of
                Inl e \<Rightarrow> Inl e
              | Inr s5 \<Rightarrow> Inr (d4, v4, flushBuffer s5)))"
    unfolding deskFullRedraw_def Let_def prod.case if_P [OF notready] i g b sum.case
    by (rule refl)
  have idx: "imageWindowOpen d
     \<longleftrightarrow> (\<exists>i<deskWinCount d. win_appType (deskWins d ! nat (deskWinOrder d ! i)) = 12)"
    by (rule imageWindowOpen_index [OF inv])
  have bad: "imageLoaded d v \<and> imageWindowOpen d \<longrightarrow>
            deskFullRedraw r P now mx my (d, v, s) = Inl NullPointer"
  proof
    assume a: "imageLoaded d v \<and> imageWindowOpen d"
    have "drawWindows P now mx my (deskWinCount d) (d, v, s3) = Inl NullPointer"
      using a idx by (intro drawWindows_null inv t3) simp_all
    then show "deskFullRedraw r P now mx my (d, v, s) = Inl NullPointer"
      unfolding start by simp
  qed
  have good: "\<not> (imageLoaded d v \<and> imageWindowOpen d) \<longrightarrow>
            (\<exists>s'. deskFullRedraw r P now mx my (d, v, s) = Inr (d, v, s')
                 \<and> gfx s' = GfxTft
                 \<and> tftLog s' = tftLog s @ map TftDraw (sceneCalls P d)
                 \<and> \<not> bufferReady s' \<and> deskBuffer s' = None
                 \<and> flushBuffer s' = s' \<and> fbInv s')"
  proof
    assume a: "\<not> (imageLoaded d v \<and> imageWindowOpen d)"
    have "drawWindows P now mx my (deskWinCount d) (d, v, s3) = Inr (d, v, s4)"
      unfolding s4_def wc_def using a idx by (intro drawWindows_tft inv t3) simp_all
    moreover have "drawAll (topCalls P) s4 = Inr s5"
      unfolding s5_def by (rule drawAll_tft) (simp add: s4_def t3)
    moreover have f: "flushBuffer s5 = s5"
      by (rule flushBuffer_noop) (simp add: s5_def s4_def s3_def s2_def s1_def)
    ultimately have r: "deskFullRedraw r P now mx my (d, v, s) = Inr (d, v, s5)"
      unfolding start by simp
    have props: "gfx s5 = GfxTft" "tftLog s5 = tftLog s @ map TftDraw (sceneCalls P d)"
      "\<not> bufferReady s5" "deskBuffer s5 = None" "fbInv s5"
      by (simp_all add: s5_def s4_def s3_def s2_def s1_def wc_def sceneCalls_def zorder_def
          fbInv_def)
    show "\<exists>s'. deskFullRedraw r P now mx my (d, v, s) = Inr (d, v, s')
                 \<and> gfx s' = GfxTft
                 \<and> tftLog s' = tftLog s @ map TftDraw (sceneCalls P d)
                 \<and> \<not> bufferReady s' \<and> deskBuffer s' = None
                 \<and> flushBuffer s' = s' \<and> fbInv s'"
      using r props f by (intro exI [of _ s5] conjI)
  qed
  have fq: "\<not> bufferReady q \<or> \<not> bufferValid q \<longrightarrow> flushBuffer q = q"
    using flushBuffer_noop [of q] by blast
  have fs: "flushBuffer s = s" using notready by (simp add: flushBuffer_noop)
  show ?thesis using fq fs bad good by (intro conjI)
qed

lemma imageShell_facts:
  "imageLoaded (fst imageShell) (snd imageShell)" "imageWindowOpen (fst imageShell)"
  "\<not> imageWindowOpen twoWindows"
  "\<not> bufferValid (fbInit\<lparr> bufferReady := True, deskBuffer := Some None \<rparr>)"
  by code_simp+

lemma twoWindows_scene:
  "map TftDraw (sceneCalls samplePainter twoWindows)
     = [TftDraw (FillRect 0 0 240 115 1040), TftDraw (DrawPixel 200 100 65535),
        TftDraw (DrawText 6 26 ''Disk''),
        TftDraw (DrawRect 20 10 95 85 0), TftDraw (DrawText 24 15 ''Calc''),
        TftDraw (DrawText 25 30 ''..''),
        TftDraw (DrawRect 35 22 130 100 0), TftDraw (DrawText 39 27 ''Notes''),
        TftDraw (DrawText 40 42 ''..''),
        TftDraw (FillRect 0 115 240 20 50712), TftDraw (DrawLine 120 67 120 77 0)]"
  by code_simp

theorem redraw_without_frame_buffer_witness:
  "deskInv (fst imageShell) \<and> fbInv fbFailed \<and> \<not> bufferReady fbFailed \<and> BufferFails \<noteq> AllocOk
   \<and> imageLoaded (fst imageShell) (snd imageShell) \<and> imageWindowOpen (fst imageShell)
   \<and> flushBuffer fbFailed = fbFailed
   \<and> deskFullRedraw BufferFails samplePainter 5033 60 40 (fst imageShell, snd imageShell, fbFailed)
        = Inl NullPointer
   \<and> \<not> bufferValid (fbInit\<lparr> bufferReady := True, deskBuffer := Some None \<rparr>)
   \<and> flushBuffer (fbInit\<lparr> bufferReady := True, deskBuffer := Some None \<rparr>)
        = fbInit\<lparr> bufferReady := True, deskBuffer := Some None \<rparr>
   \<and> deskInv twoWindows \<and> NewFails \<noteq> AllocOk \<and> \<not> imageWindowOpen twoWindows
   \<and> (\<exists>s'. deskFullRedraw NewFails samplePainter 5033 60 40 (twoWindows, viewerInit, fbFailed)
              = Inr (twoWindows, viewerInit, s')
          \<and> gfx s' = GfxTft
          \<and> tftLog s'
              = [TftDraw (FillRect 0 0 240 115 1040), TftDraw (DrawPixel 200 100 65535),
                 TftDraw (DrawText 6 26 ''Disk''),
                 TftDraw (DrawRect 20 10 95 85 0), TftDraw (DrawText 24 15 ''Calc''),
                 TftDraw (DrawText 25 30 ''..''),
                 TftDraw (DrawRect 35 22 130 100 0), TftDraw (DrawText 39 27 ''Notes''),
                 TftDraw (DrawText 40 42 ''..''),
                 TftDraw (FillRect 0 115 240 20 50712), TftDraw (DrawLine 120 67 120 77 0)]
          \<and> flushBuffer s' = s')"
proof -
  note fbf = fbFailed_facts
  note isf = imageShell_facts
  have ne: "BufferFails \<noteq> AllocOk" "NewFails \<noteq> AllocOk" by simp_all
  note bad = redraw_without_frame_buffer [OF imageShell_inv fbf(1,2) ne(1),
      of "fbInit\<lparr> bufferReady := True, deskBuffer := Some None \<rparr>" "snd imageShell"
         samplePainter 5033 60 40]
  have b1: "flushBuffer (fbInit\<lparr> bufferReady := True, deskBuffer := Some None \<rparr>)
        = fbInit\<lparr> bufferReady := True, deskBuffer := Some None \<rparr>"
    using bad isf(4) by blast
  have b2: "flushBuffer fbFailed = fbFailed" using bad by blast
  have b3: "deskFullRedraw BufferFails samplePainter 5033 60 40
              (fst imageShell, snd imageShell, fbFailed) = Inl NullPointer"
    using bad isf(1,2) by blast
  note good = redraw_without_frame_buffer [OF twoWindows_inv fbf(1,2) ne(2),
      of fbFailed viewerInit samplePainter 5033 60 40]
  have "\<exists>s'. deskFullRedraw NewFails samplePainter 5033 60 40 (twoWindows, viewerInit, fbFailed)
              = Inr (twoWindows, viewerInit, s')
          \<and> gfx s' = GfxTft
          \<and> tftLog s' = tftLog fbFailed @ map TftDraw (sceneCalls samplePainter twoWindows)
          \<and> \<not> bufferReady s' \<and> deskBuffer s' = None
          \<and> flushBuffer s' = s' \<and> fbInv s'"
    using good isf(3) by blast
  then have g1: "\<exists>s'. deskFullRedraw NewFails samplePainter 5033 60 40 (twoWindows, viewerInit, fbFailed)
              = Inr (twoWindows, viewerInit, s')
          \<and> gfx s' = GfxTft
          \<and> tftLog s'
              = [TftDraw (FillRect 0 0 240 115 1040), TftDraw (DrawPixel 200 100 65535),
                 TftDraw (DrawText 6 26 ''Disk''),
                 TftDraw (DrawRect 20 10 95 85 0), TftDraw (DrawText 24 15 ''Calc''),
                 TftDraw (DrawText 25 30 ''..''),
                 TftDraw (DrawRect 35 22 130 100 0), TftDraw (DrawText 39 27 ''Notes''),
                 TftDraw (DrawText 40 42 ''..''),
                 TftDraw (FillRect 0 115 240 20 50712), TftDraw (DrawLine 120 67 120 77 0)]
          \<and> flushBuffer s' = s'"
    unfolding fbf(5) twoWindows_scene [symmetric] by auto
  show ?thesis
    using imageShell_inv fbf(1,2) ne isf b1 b2 b3 twoWindows_inv g1 by (intro conjI)
qed

text \<open>
  When the allocation attempted by \<open>deskFullRedraw\<close> succeeds while \<open>gfx\<close> already points to the
  display (the desktop was entered with the allocation failing), the scene still goes
  directly to the display, and the flush then sends the zero-filled buffer.
\<close>

lemma redraw_after_late_allocation:
  assumes inv: "deskInv d" and fb: "fbInv s" and notready: "\<not> bufferReady s"
    and tft: "gfx s = GfxTft" and noimg: "\<not> (imageLoaded d v \<and> imageWindowOpen d)"
  shows "\<exists>s'. deskFullRedraw AllocOk P now mx my (d, v, s) = Inr (d, v, s')
            \<and> gfx s' = GfxTft \<and> bufferReady s' \<and> deskBuffer s' = Some (Some [])
            \<and> tftLog s' = tftLog s @ map TftDraw (sceneCalls P d) @ [TftRestore, TftBitmap []]"
proof -
  have nb: "deskBuffer s = None" using fb notready by (simp add: fbInv_def)
  define s1 where "s1 = s\<lparr> deskBuffer := Some (Some []), bufferReady := True \<rparr>"
  define s3 where "s3 = directDraws s1 (backdropCalls P)"
  define wc where "wc = concat (map (windowCalls P d) (rev (take (deskWinCount d) (deskWinOrder d))))"
  define s4 where "s4 = directDraws s3 wc"
  define s5 where "s5 = directDraws s4 (topCalls P)"
  define s6 where "s6 = s5\<lparr> tftLog := tftLog s5 @ [TftRestore, TftBitmap []] \<rparr>"
  have i: "snd (initDoubleBuffer AllocOk s) = s1"
    using notready nb by (simp add: initDoubleBuffer_def newCanvas_def bufferValid_def s1_def)
  have g1: "gfx s1 = GfxTft" using tft by (simp add: s1_def)
  have b: "drawAll (backdropCalls P) s1 = Inr s3"
    unfolding s3_def by (rule drawAll_tft [OF g1])
  have idx: "imageWindowOpen d
     \<longleftrightarrow> (\<exists>i<deskWinCount d. win_appType (deskWins d ! nat (deskWinOrder d ! i)) = 12)"
    by (rule imageWindowOpen_index [OF inv])
  have w: "drawWindows P now mx my (deskWinCount d) (d, v, s3) = Inr (d, v, s4)"
    unfolding s4_def wc_def using noimg idx g1 by (intro drawWindows_tft inv) (simp_all add: s3_def)
  have t: "drawAll (topCalls P) s4 = Inr s5"
    unfolding s5_def by (rule drawAll_tft) (simp add: s4_def s3_def g1)
  have f: "flushBuffer s5 = s6"
    by (simp add: flushBuffer_def bufferValid_def s6_def s5_def s4_def s3_def s1_def)
  have r: "deskFullRedraw AllocOk P now mx my (d, v, s) = Inr (d, v, s6)"
    using notready i g1 b w t f by (simp add: deskFullRedraw_def Let_def)
  have props: "gfx s6 = GfxTft" "bufferReady s6" "deskBuffer s6 = Some (Some [])"
    "tftLog s6 = tftLog s @ map TftDraw (sceneCalls P d) @ [TftRestore, TftBitmap []]"
    using tft by (simp_all add: s6_def s5_def s4_def s3_def s1_def wc_def sceneCalls_def zorder_def)
  show ?thesis using r props by (intro exI [of _ s6] conjI)
qed

section \<open>Verification of the storage supervision\<close>



lemma sdCheck_quiet:
  "\<not> (sdCardMounted s \<and> \<not> sdCardRemoved s \<and> 2000 \<le> msSince t (lastSDCheck s))
     \<Longrightarrow> sdCheck t p s = Some s"
  by (auto simp: sdCheck_def)








lemma scenarioC_runs:
  "map_option (\<lambda>s. (inSafeMode s, lastSDCheck s)) (sdRun (take 121 scenarioC) sdBoot) = Some (False, 2013)"
  "map_option (\<lambda>s. (inSafeMode s, lastSDCheck s, zorder (desk s))) (sdRun (take 122 scenarioC) sdBoot)
     = Some (True, 4026, [])"
  "map_option (\<lambda>s. (inSafeMode s, lastRemountTry s, deskNeedRedraw s)) (sdRun (take 303 scenarioC) sdBoot)
     = Some (True, 5016, False)"
  "map_option (\<lambda>s. (inSafeMode s, sdCardMounted s, lastRemountTry s, deskNeedRedraw s))
     (sdRun scenarioC sdBoot) = Some (False, True, 10032, True)"
  by code_simp+


section \<open>Verification of the chord block\<close>

lemma msSince_self [simp]: "msSince t t = 0"
  by (simp add: msSince_def)

lemma chordTick_fires:
  "screenshots (fst (chordTick t joySet joyRst c)) =
     screenshots c + (if joySet \<and> joyRst \<and> screenshotHoldStart c \<noteq> 0 \<and> \<not> screenshotTaken c
                         \<and> 1000 \<le> msSince t (screenshotHoldStart c) then 1 else 0)"
  by (simp add: chordTick_def Let_def)

lemma chordTick_partial_release:
  "screenshotComboUsed c \<Longrightarrow> joySet \<noteq> joyRst \<Longrightarrow> chordTick t joySet joyRst c = (c, True)"
  by (auto simp: chordTick_def)

lemma chordTick_full_release:
  "screenshotComboUsed c \<Longrightarrow>
     chordTick t False False c =
       (c\<lparr> screenshotComboUsed := False, screenshotHoldStart := 0, screenshotTaken := False \<rparr>, True)"
  by (simp add: chordTick_def)

lemma chordTick_used_suppresses:
  assumes "screenshotComboUsed c"
  shows "snd (chordTick t joySet joyRst c)"
    and "joySet \<or> joyRst \<Longrightarrow> screenshotComboUsed (fst (chordTick t joySet joyRst c))"
  using assms by (auto simp: chordTick_def Let_def)

lemma chordTick_both_held:
  assumes "joySet" "joyRst" "chordInv c"
  shows "snd (chordTick t joySet joyRst c)" "screenshotComboUsed (fst (chordTick t joySet joyRst c))"
  using assms by (auto simp: chordTick_def Let_def chordInv_def)

lemma chordTick_idle:
  "\<not> screenshotComboUsed c \<Longrightarrow> \<not> (joySet \<and> joyRst) \<Longrightarrow> \<not> snd (chordTick t joySet joyRst c)"
  by (auto simp: chordTick_def)

lemma chordInv_tick: "chordInv c \<Longrightarrow> chordInv (fst (chordTick t joySet joyRst c))"
  by (auto simp: chordTick_def Let_def chordInv_def)

lemma chordRun_suppressed:
  "screenshotComboUsed c \<Longrightarrow> list_all someButtonHeld ticks \<Longrightarrow>
     list_all (\<lambda>r. r) (snd (chordRun ticks c)) \<and> screenshotComboUsed (fst (chordRun ticks c))"
proof (induction ticks arbitrary: c)
  case Nil
  then show ?case by simp
next
  case (Cons tick ticks)
  obtain t a b where tick: "tick = (t, a, b)" by (cases tick) auto
  have held: "a \<or> b" using Cons.prems(2) tick by (simp add: someButtonHeld_def)
  obtain c1 r where c1: "chordTick t a b c = (c1, r)" by (cases "chordTick t a b c") auto
  have r: "r" using chordTick_used_suppresses(1) [OF Cons.prems(1), of t a b] c1 by simp
  have u: "screenshotComboUsed c1"
    using chordTick_used_suppresses(2) [OF Cons.prems(1) held, of t] c1 by simp
  from Cons.IH [OF u] Cons.prems(2) have
    "list_all (\<lambda>r. r) (snd (chordRun ticks c1)) \<and> screenshotComboUsed (fst (chordRun ticks c1))"
    by simp
  then show ?case using tick c1 r by (simp add: split_def Let_def)
qed

text \<open>
  What the chord block guarantees in every state it can reach.  A pass takes a screenshot
  exactly when both buttons are held, the session timer is running, no screenshot was taken
  in this session and at least 1000 ms have passed since the session started; a pass that
  takes one leaves the \<open>used\<close> flag set.  While the flag is set, a pass with only one of the
  two buttons held changes nothing and returns before the single-button handling, and so
  does every pass of a run in which some button of the two is held on each pass.  The first
  pass with both buttons released returns early too and clears the flag and the timer.
  With the flag clear and not both buttons held, the pass goes on to the single-button
  handling.
\<close>

theorem chord_session_suppresses_single_buttons:
  assumes inv: "chordInv c"
  shows "screenshots (fst (chordTick t joySet joyRst c)) =
           screenshots c + (if joySet \<and> joyRst \<and> screenshotHoldStart c \<noteq> 0 \<and> \<not> screenshotTaken c
                               \<and> 1000 \<le> msSince t (screenshotHoldStart c) then 1 else 0)
       \<and> (screenshots (fst (chordTick t joySet joyRst c)) \<noteq> screenshots c
            \<longrightarrow> screenshotComboUsed (fst (chordTick t joySet joyRst c)))
       \<and> (screenshotComboUsed c \<and> joySet \<noteq> joyRst \<longrightarrow> chordTick t joySet joyRst c = (c, True))
       \<and> (screenshotComboUsed c \<and> list_all someButtonHeld ticks
            \<longrightarrow> list_all (\<lambda>r. r) (snd (chordRun ticks c))
                \<and> screenshotComboUsed (fst (chordRun ticks c)))
       \<and> (screenshotComboUsed c
            \<longrightarrow> snd (chordTick t False False c)
                \<and> \<not> screenshotComboUsed (fst (chordTick t False False c))
                \<and> screenshotHoldStart (fst (chordTick t False False c)) = 0)
       \<and> (\<not> screenshotComboUsed c \<and> \<not> (joySet \<and> joyRst) \<longrightarrow> \<not> snd (chordTick t joySet joyRst c))
       \<and> chordInv (fst (chordTick t joySet joyRst c))"
proof -
  have fired: "screenshots (fst (chordTick t joySet joyRst c)) \<noteq> screenshots c
            \<longrightarrow> screenshotComboUsed (fst (chordTick t joySet joyRst c))"
  proof
    assume "screenshots (fst (chordTick t joySet joyRst c)) \<noteq> screenshots c"
    then have "joySet \<and> joyRst" by (simp add: chordTick_fires split: if_splits)
    then show "screenshotComboUsed (fst (chordTick t joySet joyRst c))"
      using chordTick_both_held(2) [OF _ _ inv] by blast
  qed
  have rel: "screenshotComboUsed c
            \<longrightarrow> snd (chordTick t False False c)
                \<and> \<not> screenshotComboUsed (fst (chordTick t False False c))
                \<and> screenshotHoldStart (fst (chordTick t False False c)) = 0"
    by (simp add: chordTick_full_release)
  show ?thesis
    using chordTick_fires [of t joySet joyRst c] fired rel
      chordTick_partial_release [of c joySet joyRst t]
      chordRun_suppressed [of c ticks]
      chordTick_idle [of c joySet joyRst t]
      chordInv_tick [OF inv, of t joySet joyRst]
    by blast
qed

lemma chordHeld_facts:
  "chordInv chordHeld" "screenshotComboUsed chordHeld" "screenshotHoldStart chordHeld = 1000"
  "\<not> screenshotTaken chordHeld" "screenshots chordHeld = 0"
  "chordInv chordIdle" "\<not> screenshotComboUsed chordIdle"
  by code_simp+

theorem chord_session_suppresses_single_buttons_witness:
  "chordInv chordHeld \<and> screenshotComboUsed chordHeld
   \<and> screenshotHoldStart chordHeld \<noteq> 0 \<and> \<not> screenshotTaken chordHeld
   \<and> 1000 \<le> msSince 2000 (screenshotHoldStart chordHeld)
   \<and> screenshots (fst (chordTick 2000 True True chordHeld)) = 1
   \<and> screenshotComboUsed (fst (chordTick 2000 True True chordHeld))
   \<and> chordTick 2100 True False chordHeld = (chordHeld, True)
   \<and> list_all someButtonHeld [(2100, True, False), (2200, False, True)]
   \<and> list_all (\<lambda>r. r) (snd (chordRun [(2100, True, False), (2200, False, True)] chordHeld))
   \<and> snd (chordTick 2300 False False chordHeld)
   \<and> \<not> screenshotComboUsed (fst (chordTick 2300 False False chordHeld))
   \<and> chordInv chordIdle \<and> \<not> screenshotComboUsed chordIdle
   \<and> \<not> snd (chordTick 2400 True False chordIdle)"
proof -
  note f = chordHeld_facts
  have ms: "1000 \<le> msSince 2000 (screenshotHoldStart chordHeld)"
    by (simp add: f(3) msSince_def)
  have held: "list_all someButtonHeld [(2100, True, False), (2200, False, True)]"
    by (simp add: someButtonHeld_def)
  note a = chord_session_suppresses_single_buttons
    [OF f(1), of 2000 True True "[(2100, True, False), (2200, False, True)]"]
  note b = chord_session_suppresses_single_buttons [OF f(1), of 2100 True False "[]"]
  note c = chord_session_suppresses_single_buttons [OF f(1), of 2300 False False "[]"]
  note d = chord_session_suppresses_single_buttons [OF f(6), of 2400 True False "[]"]
  have fire: "screenshots (fst (chordTick 2000 True True chordHeld)) = 1"
    using a ms f by simp
  then have used: "screenshotComboUsed (fst (chordTick 2000 True True chordHeld))"
    using a f(5) by simp
  have part: "chordTick 2100 True False chordHeld = (chordHeld, True)" using b f(2) by simp
  have run: "list_all (\<lambda>r. r) (snd (chordRun [(2100, True, False), (2200, False, True)] chordHeld))"
    using a f(2) held by blast
  have rel: "snd (chordTick 2300 False False chordHeld)"
    "\<not> screenshotComboUsed (fst (chordTick 2300 False False chordHeld))"
    using c f(2) by blast+
  have idle: "\<not> snd (chordTick 2400 True False chordIdle)" using d f(7) by blast
  show ?thesis using f ms fire used part held run rel idle by simp
qed

text \<open>
  Claim C9.  The chord has to be held continuously for one second to fire, and after it
  fired no single-button action is dispatched until both buttons are seen released.  The
  suppression holds (theorem \<open>chord_session_suppresses_single_buttons\<close>), the continuity does
  not: the timer is cleared only when both buttons are released or no session is open, not
  when one button is let go inside a session.  With both buttons pressed at 1000 ms, RST
  released at 1500 ms and pressed again at 1900 ms, no screenshot has been taken by
  1900 ms, and the pass at 2000 ms takes one, 100 ms after the chord was pressed again.
\<close>

theorem chord_fires_after_interrupted_hold:
  "screenshots (fst (chordRun [(1000, True, True), (1500, True, False), (1900, True, True)]
                      chordIdle)) = 0
   \<and> screenshots (fst (chordRun [(1000, True, True), (1500, True, False), (1900, True, True),
                                 (2000, True, True)] chordIdle)) = 1"
  by code_simp

section \<open>Verification of hold-to-repeat\<close>

lemma msSince_diff: "0 \<le> a \<Longrightarrow> a \<le> b \<Longrightarrow> b < 2 ^ 32 \<Longrightarrow> msSince b a = b - a"
  by (simp add: msSince_def)

lemma gameTrack_held:
  "lastUpState b = LOW \<Longrightarrow> gameTrack t LOW HIGH HIGH HIGH b = b"
  by (simp add: gameTrack_def Let_def)

lemma gameTrack_press:
  "lastUpState b = HIGH \<Longrightarrow>
     gameTrack t LOW HIGH HIGH HIGH b =
       b\<lparr> gameHoldStart := t, gameHeldDir := 1, gameFirstPress := True \<rparr>"
  by (simp add: gameTrack_def Let_def)

lemma gameHoldUp_repeat:
  assumes "lastUpState b = LOW" "gameHeldDir b = 1" "\<not> gameFirstPress b"
  shows "gameHoldUp ts b = repeatPhase (gameHoldStart b) (gameLastRepeat b) ts"
  using assms
proof (induction ts arbitrary: b)
  case Nil
  then show ?case by simp
next
  case (Cons t ts)
  let ?fire = "gameHoldStart b > 0 \<and> msSince t (gameHoldStart b) > 400
                \<and> msSince t (gameLastRepeat b) > 150"
  show ?case
  proof (cases ?fire)
    case True
    let ?b1 = "b\<lparr> gameLastRepeat := t, lastUpState := LOW, lastDownState := HIGH,
                   lastLeftState := HIGH, lastRightState := HIGH \<rparr>"
    have step: "gameDirTick t LOW HIGH HIGH HIGH b = (?b1, Repeat, 1)"
      using True Cons.prems
      by (simp add: gameDirTick_def gameTrack_held gameTrigger_def Let_def)
    have "gameHoldUp ts ?b1 = repeatPhase (gameHoldStart ?b1) (gameLastRepeat ?b1) ts"
      using Cons.prems by (intro Cons.IH) simp_all
    then show ?thesis using True step by simp
  next
    case False
    let ?b1 = "b\<lparr> lastUpState := LOW, lastDownState := HIGH,
                   lastLeftState := HIGH, lastRightState := HIGH \<rparr>"
    have step: "gameDirTick t LOW HIGH HIGH HIGH b = (?b1, NoEvent, 0)"
      using False Cons.prems
      by (auto simp: gameDirTick_def gameTrack_held gameTrigger_def Let_def)
    have "gameHoldUp ts ?b1 = repeatPhase (gameHoldStart ?b1) (gameLastRepeat ?b1) ts"
      using Cons.prems by (intro Cons.IH) simp_all
    then show ?thesis using False step by simp
  qed
qed

lemma gameHoldUp_confirm:
  assumes "lastUpState b = LOW" "gameHeldDir b = 1" "gameFirstPress b"
  shows "gameHoldUp ts b = gameConfirmPhase (gameHoldStart b) ts"
  using assms
proof (induction ts arbitrary: b)
  case Nil
  then show ?case by simp
next
  case (Cons t ts)
  show ?case
  proof (cases "msSince t (gameHoldStart b) \<ge> 50")
    case True
    let ?b1 = "b\<lparr> gameFirstPress := False, gameLastRepeat := t, lastUpState := LOW,
                   lastDownState := HIGH, lastLeftState := HIGH, lastRightState := HIGH \<rparr>"
    have step: "gameDirTick t LOW HIGH HIGH HIGH b = (?b1, Confirmed, 1)"
      using True Cons.prems
      by (simp add: gameDirTick_def gameTrack_held gameTrigger_def Let_def)
    have "gameHoldUp ts ?b1 = repeatPhase (gameHoldStart ?b1) (gameLastRepeat ?b1) ts"
      using Cons.prems by (intro gameHoldUp_repeat) simp_all
    then show ?thesis using True step by simp
  next
    case False
    let ?b1 = "b\<lparr> lastUpState := LOW, lastDownState := HIGH,
                   lastLeftState := HIGH, lastRightState := HIGH \<rparr>"
    have step: "gameDirTick t LOW HIGH HIGH HIGH b = (?b1, NoEvent, 0)"
      using False Cons.prems
      by (simp add: gameDirTick_def gameTrack_held gameTrigger_def Let_def)
    have "gameHoldUp ts ?b1 = gameConfirmPhase (gameHoldStart ?b1) ts"
      using Cons.prems by (intro Cons.IH) simp_all
    then show ?thesis using False step by simp
  qed
qed

lemma gameHoldUp_press:
  assumes "lastUpState b = HIGH"
  shows "gameHoldUp (t0 # ts) b = NoEvent # gameConfirmPhase t0 ts"
proof -
  let ?b1 = "b\<lparr> gameHoldStart := t0, gameHeldDir := 1, gameFirstPress := True,
                 lastUpState := LOW, lastDownState := HIGH,
                 lastLeftState := HIGH, lastRightState := HIGH \<rparr>"
  have step: "gameDirTick t0 LOW HIGH HIGH HIGH b = (?b1, NoEvent, 0)"
    using assms by (simp add: gameDirTick_def gameTrack_press gameTrigger_def Let_def)
  have "gameHoldUp ts ?b1 = gameConfirmPhase (gameHoldStart ?b1) ts"
    by (intro gameHoldUp_confirm) simp_all
  then show ?thesis using step by simp
qed

lemma navDebounce_press:
  "lastUpState b = HIGH \<Longrightarrow>
     navDebounce t LOW HIGH b =
       b\<lparr> upDebounceStart := t, upDebounced := False, upActed := False,
           downDebounced := False, downActed := False \<rparr>"
  by (simp add: navDebounce_def Let_def)

lemma navDebounce_waiting:
  "lastUpState b = LOW \<Longrightarrow> \<not> upDebounced b \<Longrightarrow>
     navDebounce t LOW HIGH b =
       (if msSince t (upDebounceStart b) \<ge> 50
        then b\<lparr> upDebounced := True, holdStart := t, downDebounced := False, downActed := False \<rparr>
        else b\<lparr> downDebounced := False, downActed := False \<rparr>)"
  by (simp add: navDebounce_def Let_def)

lemma navDebounce_done:
  "lastUpState b = LOW \<Longrightarrow> upDebounced b \<Longrightarrow>
     navDebounce t LOW HIGH b = b\<lparr> downDebounced := False, downActed := False \<rparr>"
  by (simp add: navDebounce_def Let_def)

lemma navHoldUp_repeat:
  assumes "lastUpState b = LOW" "upDebounced b" "upActed b"
  shows "navHoldUp ts b = repeatPhase (holdStart b) (lastRepeat b) ts"
  using assms
proof (induction ts arbitrary: b)
  case Nil
  then show ?case by simp
next
  case (Cons t ts)
  let ?fire = "holdStart b > 0 \<and> msSince t (holdStart b) > 400 \<and> msSince t (lastRepeat b) > 150"
  let ?d = "b\<lparr> downDebounced := False, downActed := False \<rparr>"
  have d: "navDebounce t LOW HIGH b = ?d" using Cons.prems by (simp add: navDebounce_done)
  show ?case
  proof (cases ?fire)
    case True
    let ?b1 = "?d\<lparr> lastRepeat := t, lastUpState := LOW, lastDownState := HIGH \<rparr>"
    have step: "navTick t LOW HIGH False b = (?b1, Repeat, NoEvent)"
      using True Cons.prems by (simp add: navTick_def d navTrigger_def Let_def)
    have "navHoldUp ts ?b1 = repeatPhase (holdStart ?b1) (lastRepeat ?b1) ts"
      using Cons.prems by (intro Cons.IH) simp_all
    then show ?thesis using True step by simp
  next
    case False
    let ?b1 = "?d\<lparr> lastUpState := LOW, lastDownState := HIGH \<rparr>"
    have step: "navTick t LOW HIGH False b = (?b1, NoEvent, NoEvent)"
      using False Cons.prems by (auto simp: navTick_def d navTrigger_def Let_def)
    have "navHoldUp ts ?b1 = repeatPhase (holdStart ?b1) (lastRepeat ?b1) ts"
      using Cons.prems by (intro Cons.IH) simp_all
    then show ?thesis using False step by simp
  qed
qed

lemma navHoldUp_confirm:
  assumes "lastUpState b = LOW" "\<not> upDebounced b" "\<not> upActed b"
  shows "navHoldUp ts b = navConfirmPhase (upDebounceStart b) ts"
  using assms
proof (induction ts arbitrary: b)
  case Nil
  then show ?case by simp
next
  case (Cons t ts)
  show ?case
  proof (cases "msSince t (upDebounceStart b) \<ge> 50")
    case True
    let ?d = "b\<lparr> upDebounced := True, holdStart := t, downDebounced := False, downActed := False \<rparr>"
    have d: "navDebounce t LOW HIGH b = ?d" using True Cons.prems by (simp add: navDebounce_waiting)
    let ?b1 = "?d\<lparr> upActed := True, lastRepeat := t, lastUpState := LOW, lastDownState := HIGH \<rparr>"
    have step: "navTick t LOW HIGH False b = (?b1, Confirmed, NoEvent)"
      using True Cons.prems by (simp add: navTick_def d navTrigger_def Let_def)
    have "navHoldUp ts ?b1 = repeatPhase (holdStart ?b1) (lastRepeat ?b1) ts"
      by (intro navHoldUp_repeat) simp_all
    then show ?thesis using True step by simp
  next
    case False
    let ?d = "b\<lparr> downDebounced := False, downActed := False \<rparr>"
    have d: "navDebounce t LOW HIGH b = ?d" using False Cons.prems by (simp add: navDebounce_waiting)
    let ?b1 = "?d\<lparr> lastUpState := LOW, lastDownState := HIGH \<rparr>"
    have step: "navTick t LOW HIGH False b = (?b1, NoEvent, NoEvent)"
      using False Cons.prems by (simp add: navTick_def d navTrigger_def Let_def)
    have "navHoldUp ts ?b1 = navConfirmPhase (upDebounceStart ?b1) ts"
      using Cons.prems by (intro Cons.IH) simp_all
    then show ?thesis using False step by simp
  qed
qed

lemma navHoldUp_press:
  assumes "lastUpState b = HIGH"
  shows "navHoldUp (t0 # ts) b = NoEvent # navConfirmPhase t0 ts"
proof -
  let ?d = "b\<lparr> upDebounceStart := t0, upDebounced := False, upActed := False,
           downDebounced := False, downActed := False \<rparr>"
  have d: "navDebounce t0 LOW HIGH b = ?d" using assms by (simp add: navDebounce_press)
  let ?b1 = "?d\<lparr> lastUpState := LOW, lastDownState := HIGH \<rparr>"
  have step: "navTick t0 LOW HIGH False b = (?b1, NoEvent, NoEvent)"
    by (simp add: navTick_def d navTrigger_def Let_def)
  have "navHoldUp ts ?b1 = navConfirmPhase (upDebounceStart ?b1) ts"
    by (intro navHoldUp_confirm) simp_all
  then show ?thesis using step by simp
qed


lemma countEvents_Cons [simp]:
  "countEvents e (x # xs) = (if x = e then Suc (countEvents e xs) else countEvents e xs)"
  "countEvents e [] = 0"
  by (simp_all add: countEvents_def)

lemma repeatPhase_no_confirmed: "countEvents Confirmed (repeatPhase hs lr ts) = 0"
  by (induction ts arbitrary: lr) simp_all

lemma repBound_antimono: "m \<le> m' \<Longrightarrow> repBound m' T \<le> repBound m T"
proof -
  assume m: "m \<le> m'"
  show ?thesis
  proof (cases "T < m'")
    case True
    then show ?thesis by (simp add: repBound_def)
  next
    case False
    then have "(T - m') div 151 \<le> (T - m) div 151" using m by (intro zdiv_mono1) simp_all
    then show ?thesis using False m by (simp add: repBound_def)
  qed
qed

lemma repBound_step:
  assumes "m \<le> t" "t \<le> T"
  shows "Suc (repBound (t + 151) T) \<le> repBound m T"
proof (cases "T < t + 151")
  case True
  have "0 \<le> (T - m) div 151" using assms by (simp add: pos_imp_zdiv_nonneg_iff)
  then show ?thesis using True assms by (simp add: repBound_def)
next
  case False
  have "(T - (t + 151) + 151 * 1) div 151 = 1 + (T - (t + 151)) div 151"
    by (rule div_mult_self2) simp
  then have a: "(T - (t + 151)) div 151 + 1 = (T - t) div 151" by simp
  have b: "(T - t) div 151 \<le> (T - m) div 151" using assms by (intro zdiv_mono1) simp_all
  have c: "0 \<le> (T - (t + 151)) div 151" using False by (simp add: pos_imp_zdiv_nonneg_iff)
  show ?thesis using False assms a b c by (simp add: repBound_def)
qed

lemma repeatPhase_bound:
  assumes "0 \<le> hs" "hs \<le> lr" "sorted ts" "\<forall>t\<in>set ts. lr \<le> t \<and> t \<le> T" "T < 2 ^ 32"
  shows "countEvents Repeat (repeatPhase hs lr ts) \<le> repBound (max (hs + 401) (lr + 151)) T"
  using assms
proof (induction ts arbitrary: lr)
  case Nil
  then show ?case by simp
next
  case (Cons t ts)
  have t: "lr \<le> t" "t \<le> T" "t < 2 ^ 32" using Cons.prems by auto
  have ms: "msSince t hs = t - hs" "msSince t lr = t - lr"
    using Cons.prems t by (simp_all add: msSince_diff)
  have srt: "sorted ts" and ge: "\<forall>x\<in>set ts. t \<le> x" using Cons.prems(3) by simp_all
  show ?case
  proof (cases "hs > 0 \<and> t - hs > 400 \<and> t - lr > 150")
    case True
    have "countEvents Repeat (repeatPhase hs t ts) \<le> repBound (max (hs + 401) (t + 151)) T"
      using Cons.prems t srt ge by (intro Cons.IH) auto
    moreover have "max (hs + 401) (t + 151) = t + 151" using True by simp
    moreover have "Suc (repBound (t + 151) T) \<le> repBound (max (hs + 401) (lr + 151)) T"
      using True t by (intro repBound_step) simp_all
    ultimately show ?thesis using True ms by simp
  next
    case False
    have "countEvents Repeat (repeatPhase hs lr ts) \<le> repBound (max (hs + 401) (lr + 151)) T"
      using Cons.prems srt by (intro Cons.IH) auto
    then show ?thesis using False ms by auto
  qed
qed

lemma gameConfirmPhase_confirmed:
  assumes "0 \<le> hs" "\<forall>t\<in>set ts. hs \<le> t \<and> t < 2 ^ 32"
  shows "countEvents Confirmed (gameConfirmPhase hs ts) = (if \<exists>t\<in>set ts. 50 \<le> t - hs then 1 else 0)"
  using assms
proof (induction ts)
  case Nil
  then show ?case by simp
next
  case (Cons t ts)
  have ms: "msSince t hs = t - hs" using Cons.prems by (simp add: msSince_diff)
  show ?case
  proof (cases "50 \<le> t - hs")
    case True
    then show ?thesis using ms by (simp add: repeatPhase_no_confirmed)
  next
    case False
    then show ?thesis using ms Cons.IH Cons.prems by simp
  qed
qed

lemma gameConfirmPhase_repeats:
  assumes "0 \<le> hs" "sorted ts" "\<forall>t\<in>set ts. hs \<le> t \<and> t \<le> T" "T < 2 ^ 32"
  shows "countEvents Repeat (gameConfirmPhase hs ts) \<le> repBound (hs + 401) T"
  using assms
proof (induction ts)
  case Nil
  then show ?case by simp
next
  case (Cons t ts)
  have t: "hs \<le> t" "t \<le> T" "t < 2 ^ 32" using Cons.prems by auto
  have ms: "msSince t hs = t - hs" using Cons.prems t by (simp add: msSince_diff)
  have srt: "sorted ts" and ge: "\<forall>x\<in>set ts. t \<le> x" using Cons.prems(2) by simp_all
  have rest: "\<forall>x\<in>set ts. hs \<le> x \<and> x \<le> T" using Cons.prems(3) by simp
  show ?case
  proof (cases "50 \<le> t - hs")
    case True
    have "countEvents Repeat (repeatPhase hs t ts) \<le> repBound (max (hs + 401) (t + 151)) T"
      using Cons.prems t srt ge by (intro repeatPhase_bound) auto
    also have "\<dots> \<le> repBound (hs + 401) T" by (intro repBound_antimono) simp
    finally show ?thesis using True ms by simp
  next
    case False
    then show ?thesis using ms Cons.IH [OF Cons.prems(1) srt rest Cons.prems(4)] by simp
  qed
qed

lemma navConfirmPhase_confirmed:
  assumes "0 \<le> ds" "\<forall>t\<in>set ts. ds \<le> t \<and> t < 2 ^ 32"
  shows "countEvents Confirmed (navConfirmPhase ds ts) = (if \<exists>t\<in>set ts. 50 \<le> t - ds then 1 else 0)"
  using assms
proof (induction ts)
  case Nil
  then show ?case by simp
next
  case (Cons t ts)
  have ms: "msSince t ds = t - ds" using Cons.prems by (simp add: msSince_diff)
  show ?case
  proof (cases "50 \<le> t - ds")
    case True
    then show ?thesis using ms by (simp add: repeatPhase_no_confirmed)
  next
    case False
    then show ?thesis using ms Cons.IH Cons.prems by simp
  qed
qed

lemma navConfirmPhase_repeats:
  assumes "0 \<le> ds" "sorted ts" "\<forall>t\<in>set ts. ds \<le> t \<and> t \<le> T" "T < 2 ^ 32"
  shows "countEvents Repeat (navConfirmPhase ds ts) \<le> repBound (ds + 401) T"
  using assms
proof (induction ts)
  case Nil
  then show ?case by simp
next
  case (Cons t ts)
  have t: "ds \<le> t" "t \<le> T" "t < 2 ^ 32" using Cons.prems by auto
  have ms: "msSince t ds = t - ds" using Cons.prems t by (simp add: msSince_diff)
  have srt: "sorted ts" and ge: "\<forall>x\<in>set ts. t \<le> x" using Cons.prems(2) by simp_all
  have rest: "\<forall>x\<in>set ts. ds \<le> x \<and> x \<le> T" using Cons.prems(3) by simp
  show ?case
  proof (cases "50 \<le> t - ds")
    case True
    have "countEvents Repeat (repeatPhase t t ts) \<le> repBound (max (t + 401) (t + 151)) T"
      using Cons.prems t srt ge by (intro repeatPhase_bound) auto
    also have "\<dots> \<le> repBound (ds + 401) T" using t by (intro repBound_antimono) simp
    finally show ?thesis using True ms by simp
  next
    case False
    then show ?thesis using ms Cons.IH [OF Cons.prems(1) srt rest Cons.prems(4)] by simp
  qed
qed

lemma sorted_le_last: "sorted xs \<Longrightarrow> x \<in> set xs \<Longrightarrow> x \<le> last xs"
proof (induction xs)
  case Nil
  then show ?case by simp
next
  case (Cons a xs)
  show ?case
  proof (cases "xs = []")
    case True
    with Cons.prems show ?thesis by simp
  next
    case False
    then have l: "last (a # xs) = last xs" by simp
    have "last xs \<in> set xs" using False by simp
    then have "a \<le> last xs" using Cons.prems(1) by simp
    moreover have "x \<in> set xs \<Longrightarrow> x \<le> last xs" using Cons.IH Cons.prems(1) by simp
    ultimately show ?thesis using Cons.prems(2) l by auto
  qed
qed

lemma sorted_last_reaches:
  fixes t0 :: int
  assumes "sorted (t0 # ts)"
  shows "(\<exists>t\<in>set ts. 50 \<le> t - t0) \<longleftrightarrow> 50 \<le> last (t0 # ts) - t0"
proof (cases "ts = []")
  case True
  then show ?thesis by simp
next
  case False
  then have "last (t0 # ts) \<in> set ts" by simp
  moreover have "\<forall>t\<in>set ts. t \<le> last (t0 # ts)"
    using sorted_le_last [OF assms] by simp
  ultimately show ?thesis by fastforce
qed


lemma repBound_hold:
  "int (repBound (t0 + 401) T) = (if 400 < T - t0 then (T - t0 - 401) div 151 + 1 else 0)"
proof (cases "400 < T - t0")
  case True
  then have "0 \<le> (T - (t0 + 401)) div 151" by (simp add: pos_imp_zdiv_nonneg_iff)
  moreover have "T - (t0 + 401) = T - t0 - 401" by simp
  ultimately show ?thesis using True by (simp add: repBound_def)
next
  case False
  then show ?thesis by (simp add: repBound_def)
qed

lemma repeatPhase_rule: "0 < hs \<Longrightarrow> repeatPhase hs lr ts = repeatRule hs lr ts"
  by (induction ts arbitrary: lr) simp_all

lemma repeatPhase_zero: "repeatPhase 0 lr ts = replicate (length ts) NoEvent"
  by (induction ts) simp_all

lemma gameConfirmPhase_rule: "0 < hs \<Longrightarrow> gameConfirmPhase hs ts = gameHoldRule hs ts"
  by (induction ts) (simp_all add: repeatPhase_rule)

lemma gameConfirmPhase_zero: "gameConfirmPhase 0 ts = confirmOnce 0 ts"
  by (induction ts) (simp_all add: repeatPhase_zero)

lemma countEvents_replicate: "countEvents Repeat (replicate n NoEvent) = 0"
  by (induction n) simp_all

lemma confirmOnce_no_repeat: "countEvents Repeat (confirmOnce hs ts) = 0"
  by (induction ts) (simp_all add: countEvents_replicate)

lemma navConfirmPhase_rule:
  assumes "0 \<le> ds" "\<forall>t\<in>set ts. ds \<le> t \<and> t < 2 ^ 32"
  shows "navConfirmPhase ds ts = navHoldRule ds ts"
  using assms
proof (induction ts)
  case Nil
  then show ?case by simp
next
  case (Cons t ts)
  have ms: "msSince t ds = t - ds" using Cons.prems by (simp add: msSince_diff)
  show ?case
  proof (cases "50 \<le> t - ds")
    case True
    then have "0 < t" using Cons.prems(1) by simp
    then show ?thesis using True ms by (simp add: repeatPhase_rule)
  next
    case False
    then show ?thesis using ms Cons.IH Cons.prems by simp
  qed
qed

lemma passes600:
  "passesEvery33 t0 600 = t0 # [t0 + 33, t0 + 66, t0 + 99, t0 + 132, t0 + 165, t0 + 198,
     t0 + 231, t0 + 264, t0 + 297, t0 + 330, t0 + 363, t0 + 396, t0 + 429, t0 + 462, t0 + 495,
     t0 + 528, t0 + 561, t0 + 594]"
  by (simp add: passesEvery33_def upto_rec1)

lemma game600:
  assumes "0 < t0" "lastUpState b = HIGH"
  shows "countEvents Confirmed (gameHoldUp (passesEvery33 t0 600) b) = 1"
    "countEvents Repeat (gameHoldUp (passesEvery33 t0 600) b) = 2"
  unfolding passes600 gameHoldUp_press [OF assms(2)] using assms(1)
  by (simp_all add: msSince_def)

lemma nav600:
  assumes "0 \<le> t0" "lastUpState b = HIGH"
  shows "countEvents Confirmed (navHoldUp (passesEvery33 t0 600) b) = 1"
    "countEvents Repeat (navHoldUp (passesEvery33 t0 600) b) = 1"
  unfolding passes600 navHoldUp_press [OF assms(2)] using assms(1)
  by (simp_all add: msSince_def)

text \<open>
  Claim C3, as amended.  A button seen held on the passes at times \<open>t0 \<le> t1 \<le> ... \<le> tn\<close>
  (values of \<open>millis()\<close> that do not wrap around during the hold), not pressed before and
  with no other direction pressed, gives nothing on the pass at \<open>t0\<close> and exactly one
  confirmed event when \<open>D = tn - t0\<close> is at least 50 ms, on the first pass at least 50 ms
  after \<open>t0\<close>, and none otherwise.  After the confirmed event a repeat event fires on every
  pass that comes more than \<open>I = 400\<close> ms after the start of the hold and more than
  \<open>R = 150\<close> ms after the last event: in the menu block always, with the hold counted from
  the pass of the confirmed event; in the game block when the press was seen at a time
  \<open>t0 > 0\<close>, with the hold counted from \<open>t0\<close>.  A press that the game block sees at
  \<open>millis() = 0\<close> is confirmed and never repeats, because the code reads a hold start of zero
  as no hold.  So there is no repeat event when \<open>D \<le> I\<close>, and at most
  \<open>(D - I - 1) div (R + 1) + 1\<close> of them when \<open>D > I\<close>.  A hold of 600 ms seen on passes every
  33 ms from \<open>t0\<close> gives one confirmed and two repeat events in the game block when \<open>t0 > 0\<close>,
  and one confirmed and one repeat event in the menu block.
\<close>

theorem hold_repeat_event_counts:
  assumes up: "lastUpState b = HIGH"
    and srt: "sorted (t0 # ts)" and lo: "0 \<le> t0" and hi: "last (t0 # ts) < 2 ^ 32"
  shows "(0 < t0 \<longrightarrow> gameHoldUp (t0 # ts) b = NoEvent # gameHoldRule t0 ts)
       \<and> (t0 = 0 \<longrightarrow> gameHoldUp (t0 # ts) b = NoEvent # confirmOnce t0 ts
                      \<and> countEvents Repeat (gameHoldUp (t0 # ts) b) = 0)
       \<and> navHoldUp (t0 # ts) b = NoEvent # navHoldRule t0 ts
       \<and> countEvents Confirmed (gameHoldUp (t0 # ts) b) = (if 50 \<le> last (t0 # ts) - t0 then 1 else 0)
       \<and> countEvents Confirmed (navHoldUp (t0 # ts) b) = (if 50 \<le> last (t0 # ts) - t0 then 1 else 0)
       \<and> int (countEvents Repeat (gameHoldUp (t0 # ts) b))
            \<le> (if 400 < last (t0 # ts) - t0 then (last (t0 # ts) - t0 - 401) div 151 + 1 else 0)
       \<and> int (countEvents Repeat (navHoldUp (t0 # ts) b))
            \<le> (if 400 < last (t0 # ts) - t0 then (last (t0 # ts) - t0 - 401) div 151 + 1 else 0)
       \<and> (0 < t0 \<longrightarrow> countEvents Confirmed (gameHoldUp (passesEvery33 t0 600) b) = 1
                      \<and> countEvents Repeat (gameHoldUp (passesEvery33 t0 600) b) = 2)
       \<and> countEvents Confirmed (navHoldUp (passesEvery33 t0 600) b) = 1
       \<and> countEvents Repeat (navHoldUp (passesEvery33 t0 600) b) = 1"
proof -
  define T where "T = last (t0 # ts)"
  have g: "gameHoldUp (t0 # ts) b = NoEvent # gameConfirmPhase t0 ts"
    by (rule gameHoldUp_press [OF up])
  have n: "navHoldUp (t0 # ts) b = NoEvent # navConfirmPhase t0 ts"
    by (rule navHoldUp_press [OF up])
  have st: "sorted ts" using srt by simp
  have le: "\<forall>t\<in>set ts. t0 \<le> t \<and> t \<le> T"
    using srt sorted_le_last [OF srt] by (auto simp: T_def)
  have hi': "T < 2 ^ 32" using hi by (simp add: T_def)
  have lt: "\<forall>t\<in>set ts. t0 \<le> t \<and> t < 2 ^ 32" using le hi' by auto
  have ex: "(\<exists>t\<in>set ts. 50 \<le> t - t0) \<longleftrightarrow> 50 \<le> T - t0"
    unfolding T_def by (rule sorted_last_reaches [OF srt])
  have gp: "0 < t0 \<longrightarrow> gameHoldUp (t0 # ts) b = NoEvent # gameHoldRule t0 ts"
    unfolding g by (simp add: gameConfirmPhase_rule)
  have gz: "t0 = 0 \<longrightarrow> gameHoldUp (t0 # ts) b = NoEvent # confirmOnce t0 ts
                      \<and> countEvents Repeat (gameHoldUp (t0 # ts) b) = 0"
    unfolding g by (simp add: gameConfirmPhase_zero confirmOnce_no_repeat)
  have np: "navHoldUp (t0 # ts) b = NoEvent # navHoldRule t0 ts"
    unfolding n by (simp add: navConfirmPhase_rule [OF lo lt])
  have gc: "countEvents Confirmed (gameHoldUp (t0 # ts) b) = (if 50 \<le> T - t0 then 1 else 0)"
    unfolding g using gameConfirmPhase_confirmed [OF lo lt] ex by simp
  have nc: "countEvents Confirmed (navHoldUp (t0 # ts) b) = (if 50 \<le> T - t0 then 1 else 0)"
    unfolding n using navConfirmPhase_confirmed [OF lo lt] ex by simp
  have "countEvents Repeat (gameHoldUp (t0 # ts) b) \<le> repBound (t0 + 401) T"
    unfolding g using gameConfirmPhase_repeats [OF lo st le hi'] by simp
  then have "int (countEvents Repeat (gameHoldUp (t0 # ts) b)) \<le> int (repBound (t0 + 401) T)"
    by simp
  then have gr: "int (countEvents Repeat (gameHoldUp (t0 # ts) b))
            \<le> (if 400 < T - t0 then (T - t0 - 401) div 151 + 1 else 0)"
    by (simp only: repBound_hold)
  have "countEvents Repeat (navHoldUp (t0 # ts) b) \<le> repBound (t0 + 401) T"
    unfolding n using navConfirmPhase_repeats [OF lo st le hi'] by simp
  then have "int (countEvents Repeat (navHoldUp (t0 # ts) b)) \<le> int (repBound (t0 + 401) T)"
    by simp
  then have nr: "int (countEvents Repeat (navHoldUp (t0 # ts) b))
            \<le> (if 400 < T - t0 then (T - t0 - 401) div 151 + 1 else 0)"
    by (simp only: repBound_hold)
  have g6: "0 < t0 \<longrightarrow> countEvents Confirmed (gameHoldUp (passesEvery33 t0 600) b) = 1
                      \<and> countEvents Repeat (gameHoldUp (passesEvery33 t0 600) b) = 2"
    using game600 [OF _ up] by blast
  have n6: "countEvents Confirmed (navHoldUp (passesEvery33 t0 600) b) = 1"
    "countEvents Repeat (navHoldUp (passesEvery33 t0 600) b) = 1"
    by (rule nav600 [OF lo up])+
  show ?thesis using gp gz np gc nc gr nr g6 n6 unfolding T_def by (intro conjI)
qed

lemma passes600_facts:
  "1000 # tl (passesEvery33 1000 600) = passesEvery33 1000 600"
  "sorted (passesEvery33 1000 600)" "last (passesEvery33 1000 600) = 1594"
  "lastUpState btnIdle = HIGH"
  "0 # tl (passesEvery33 0 600) = passesEvery33 0 600"
  "sorted (passesEvery33 0 600)" "last (passesEvery33 0 600) = 594"
  by code_simp+

theorem hold_repeat_event_counts_witness:
  "lastUpState btnIdle = HIGH \<and> sorted (passesEvery33 1000 600) \<and> (0 :: int) < 1000
   \<and> last (passesEvery33 1000 600) < 2 ^ 32
   \<and> (50 :: int) \<le> last (passesEvery33 1000 600) - 1000
   \<and> (400 :: int) < last (passesEvery33 1000 600) - 1000
   \<and> gameHoldUp (passesEvery33 1000 600) btnIdle
        = NoEvent # gameHoldRule 1000 (tl (passesEvery33 1000 600))
   \<and> navHoldUp (passesEvery33 1000 600) btnIdle
        = NoEvent # navHoldRule 1000 (tl (passesEvery33 1000 600))
   \<and> countEvents Confirmed (gameHoldUp (passesEvery33 1000 600) btnIdle) = 1
   \<and> countEvents Confirmed (navHoldUp (passesEvery33 1000 600) btnIdle) = 1
   \<and> countEvents Repeat (gameHoldUp (passesEvery33 1000 600) btnIdle) = 2
   \<and> countEvents Repeat (navHoldUp (passesEvery33 1000 600) btnIdle) = 1
   \<and> sorted (passesEvery33 0 600) \<and> last (passesEvery33 0 600) < 2 ^ 32
   \<and> (50 :: int) \<le> last (passesEvery33 0 600) - 0
   \<and> countEvents Confirmed (gameHoldUp (passesEvery33 0 600) btnIdle) = 1
   \<and> countEvents Repeat (gameHoldUp (passesEvery33 0 600) btnIdle) = 0
   \<and> countEvents Repeat (navHoldUp (passesEvery33 0 600) btnIdle) = 1"
proof -
  note f = passes600_facts
  have srt: "sorted (1000 # tl (passesEvery33 1000 600))" using f(1,2) by simp
  have hi: "last (1000 # tl (passesEvery33 1000 600)) < 2 ^ 32" using f(1,3) by simp
  have lo: "(0 :: int) \<le> 1000" and pos: "(0 :: int) < 1000" by simp_all
  note t = hold_repeat_event_counts [OF f(4) srt lo hi, unfolded f(1) f(3)]
  have a: "gameHoldUp (passesEvery33 1000 600) btnIdle
        = NoEvent # gameHoldRule 1000 (tl (passesEvery33 1000 600))"
    "navHoldUp (passesEvery33 1000 600) btnIdle
        = NoEvent # navHoldRule 1000 (tl (passesEvery33 1000 600))"
    "countEvents Confirmed (gameHoldUp (passesEvery33 1000 600) btnIdle) = 1"
    "countEvents Repeat (gameHoldUp (passesEvery33 1000 600) btnIdle) = 2"
    "countEvents Confirmed (navHoldUp (passesEvery33 1000 600) btnIdle) = 1"
    "countEvents Repeat (navHoldUp (passesEvery33 1000 600) btnIdle) = 1"
    using t pos by blast+
  have srt0: "sorted (0 # tl (passesEvery33 0 600))" using f(5,6) by simp
  have hi0: "last (0 # tl (passesEvery33 0 600)) < 2 ^ 32" using f(5,7) by simp
  have lo0: "(0 :: int) \<le> 0" by simp
  have z1: "(if (50 :: int) \<le> 594 - 0 then (1 :: nat) else 0) = 1" by simp
  note z = hold_repeat_event_counts [OF f(4) srt0 lo0 hi0, unfolded f(5) f(7)]
  have b: "countEvents Confirmed (gameHoldUp (passesEvery33 0 600) btnIdle) = 1"
    "countEvents Repeat (gameHoldUp (passesEvery33 0 600) btnIdle) = 0"
    "countEvents Repeat (navHoldUp (passesEvery33 0 600) btnIdle) = 1"
    using z [unfolded z1] by blast+
  have c: "(0 :: int) < 1000" "(1594 :: int) < 2 ^ 32" "(50 :: int) \<le> 1594 - 1000"
    "(400 :: int) < 1594 - 1000" "(594 :: int) < 2 ^ 32" "(50 :: int) \<le> 594 - 0"
    by simp_all
  show ?thesis unfolding f(3) f(7) using a b c f(2,4,6) by (intro conjI)
qed

text \<open>
  The count \<open>(D - I) div R\<close> of the claim is not what the code gives: the first repeat comes
  as soon as the hold exceeds \<open>I\<close>, not \<open>R\<close> later.  A 600 ms hold sampled every 33 ms gives one
  confirmed and two repeat events in the game block, three events where the claim has two;
  a 500 ms hold gives one repeat event in the menu block where the claim has none.
\<close>

theorem hold_repeat_count_counterexample:
  "countEvents Confirmed (gameHoldUp (passesEvery33 1000 600) btnIdle) = 1
   \<and> int (countEvents Repeat (gameHoldUp (passesEvery33 1000 600) btnIdle)) = 2
   \<and> specRepeats 600 = 1
   \<and> countEvents Confirmed (navHoldUp (passesEvery33 1000 500) btnIdle) = 1
   \<and> int (countEvents Repeat (navHoldUp (passesEvery33 1000 500) btnIdle)) = 1
   \<and> specRepeats 500 = 0"
  by code_simp

end
